theory Spec2Isabelle
  imports Complex_Main "HOL-Library.AList"
begin

section \<open>Messages and the effects of a reaction\<close>

text \<open>
  A \<^verbatim>\<open>Message\<close> of the runtime has a type tag and a payload dictionary. The
  handlers of \<^verbatim>\<open>guarantees.py\<close> read at most the keys \<^verbatim>\<open>seq\<close> and
  \<^verbatim>\<open>text\<close>, and only after they have checked the type tag, so a message is a
  record of the tag and these two payload entries.

  The calls on the \<^verbatim>\<open>Context\<close> (\<^verbatim>\<open>send\<close>, \<^verbatim>\<open>send_local\<close>,
  \<^verbatim>\<open>set_timer_once\<close>, \<^verbatim>\<open>cancel_timer\<close>) are the only effects of a reaction
  outside the process's own fields. Every handler returns the new state together with
  the list of these calls, in the order the code makes them.
\<close>

record message =
  mtype :: string
  mseq :: int
  mtext :: string

definition DATA :: "int \<Rightarrow> string \<Rightarrow> message" where
  "DATA q t = \<lparr>mtype = ''DATA'', mseq = q, mtext = t\<rparr>"

definition ACK :: "int \<Rightarrow> message" where
  "ACK q = \<lparr>mtype = ''ACK'', mseq = q, mtext = []\<rparr>"

definition MESSAGE :: "string \<Rightarrow> message" where
  "MESSAGE t = \<lparr>mtype = ''MESSAGE'', mseq = 0, mtext = t\<rparr>"

datatype action =
    Send message string
  | SendLocal message
  | SetTimerOnce string real
  | CancelTimer string

datatype event =
    Local message
  | Wire message string
  | Timer string

text \<open>
  A Python \<^verbatim>\<open>dict\<close> from sequence numbers to texts is an association list in
  insertion order with distinct keys: \<^verbatim>\<open>k in d\<close> is \<open>map_of d k \<noteq> None\<close>,
  \<^verbatim>\<open>d[k] = v\<close> is \<open>AList.update k v d\<close>, \<^verbatim>\<open>del d[k]\<close> and
  \<^verbatim>\<open>d.pop(k)\<close> are \<open>AList.delete k d\<close>, \<^verbatim>\<open>not d\<close> is \<open>d = []\<close> and
  \<^verbatim>\<open>len(d)\<close> is \<open>length d\<close>.
\<close>

type_synonym seqdict = "(int \<times> string) list"

definition keys :: "seqdict \<Rightarrow> int set" where
  "keys d = fst ` set d"

section \<open>At-most-once sender\<close>

record AtMostOnceSender =
  amos_receiver :: string
  amos_next_seq :: int

definition AtMostOnceSender_init :: "string \<Rightarrow> AtMostOnceSender" where
  "AtMostOnceSender_init rid = \<lparr>amos_receiver = rid, amos_next_seq = 1\<rparr>"

definition AtMostOnceSender_on_local_message ::
  "AtMostOnceSender \<Rightarrow> message \<Rightarrow> AtMostOnceSender \<times> action list" where
  "AtMostOnceSender_on_local_message s m =
     (if mtype m \<noteq> ''MESSAGE'' then (s, [])
      else (s\<lparr>amos_next_seq := amos_next_seq s + 1\<rparr>,
            [Send (DATA (amos_next_seq s) (mtext m)) (amos_receiver s)]))"

definition AtMostOnceSender_on_message ::
  "AtMostOnceSender \<Rightarrow> message \<Rightarrow> string \<Rightarrow> AtMostOnceSender \<times> action list" where
  "AtMostOnceSender_on_message s m sender = (s, [])"

definition AtMostOnceSender_on_timer ::
  "AtMostOnceSender \<Rightarrow> string \<Rightarrow> AtMostOnceSender \<times> action list" where
  "AtMostOnceSender_on_timer s timer_name = (s, [])"

section \<open>The reorder buffer shared by the two ordered receivers\<close>

text \<open>
  \<^verbatim>\<open>AtMostOnceReceiver._flush\<close> and \<^verbatim>\<open>ExactlyOnceOrderedReceiver._flush\<close>
  are the same loop over the fields \<^verbatim>\<open>_next_seq\<close> and \<^verbatim>\<open>_buffer\<close>:
  \<^verbatim>\<open>
  while self._next_seq in self._buffer:
      text = self._buffer.pop(self._next_seq)
      self._deliver(text, ctx)
      self._next_seq += 1
  \<close>
  The loop is written once, on the pair of the two fields; every iteration removes an
  entry of the buffer, which is the termination argument.
\<close>

definition deliver :: "string \<Rightarrow> action list" where
  "deliver t = [SendLocal (MESSAGE t)]"

lemma length_delete_less:
  "map_of d k = Some v \<Longrightarrow> length (AList.delete k d) < length d"
  by (induction d) (auto simp: less_Suc_eq_le length_filter_le AList.delete_eq split: if_splits)

function flush_loop :: "int \<Rightarrow> seqdict \<Rightarrow> (int \<times> seqdict) \<times> action list" where
  "flush_loop n buf =
     (case map_of buf n of
        None \<Rightarrow> ((n, buf), [])
      | Some t \<Rightarrow>
          (let (r, out) = flush_loop (n + 1) (AList.delete n buf)
           in (r, deliver t @ out)))"
  by pat_completeness auto
termination
  by (relation "measure (\<lambda>(n, buf). length buf)") (auto simp: length_delete_less)

declare flush_loop.simps [simp del]

section \<open>At-most-once receiver\<close>

record AtMostOnceReceiver =
  amo_next_seq :: int
  amo_buffer :: seqdict
  amo_max_buffer :: nat

definition AtMostOnceReceiver_init :: AtMostOnceReceiver where
  "AtMostOnceReceiver_init = \<lparr>amo_next_seq = 1, amo_buffer = [], amo_max_buffer = 12\<rparr>"

definition AtMostOnceReceiver_flush ::
  "AtMostOnceReceiver \<Rightarrow> AtMostOnceReceiver \<times> action list" where
  "AtMostOnceReceiver_flush s =
     (let ((n, buf), out) = flush_loop (amo_next_seq s) (amo_buffer s)
      in (s\<lparr>amo_next_seq := n, amo_buffer := buf\<rparr>, out))"

definition AtMostOnceReceiver_skip_ahead ::
  "AtMostOnceReceiver \<Rightarrow> AtMostOnceReceiver \<times> action list" where
  "AtMostOnceReceiver_skip_ahead s =
     (if amo_buffer s = [] then (s, [])
      else let new_next = Min (keys (amo_buffer s))
           in if new_next \<le> amo_next_seq s then (s, [])
              else AtMostOnceReceiver_flush (s\<lparr>amo_next_seq := new_next\<rparr>))"

text \<open>
  Lines 62 to 68 of \<^verbatim>\<open>on_message\<close>: the arrival is the expected one (deliver,
  advance, flush) or lies ahead (stored if its key is absent). The caller has already
  returned for \<open>seq < next_seq\<close>.
\<close>

definition AtMostOnceReceiver_accept ::
  "AtMostOnceReceiver \<Rightarrow> int \<Rightarrow> string \<Rightarrow> AtMostOnceReceiver \<times> action list" where
  "AtMostOnceReceiver_accept s q t =
     (if q = amo_next_seq s then
        (let (s1, out) = AtMostOnceReceiver_flush (s\<lparr>amo_next_seq := amo_next_seq s + 1\<rparr>)
         in (s1, deliver t @ out))
      else if map_of (amo_buffer s) q = None
        then (s\<lparr>amo_buffer := AList.update q t (amo_buffer s)\<rparr>, [])
        else (s, []))"

definition AtMostOnceReceiver_on_message ::
  "AtMostOnceReceiver \<Rightarrow> message \<Rightarrow> string \<Rightarrow> AtMostOnceReceiver \<times> action list" where
  "AtMostOnceReceiver_on_message s m sender =
     (if mtype m \<noteq> ''DATA'' then (s, [])
      else if mseq m < amo_next_seq s then (s, [])
      else let (s1, out1) = AtMostOnceReceiver_accept s (mseq m) (mtext m)
           in if length (amo_buffer s1) > amo_max_buffer s1
              then (let (s2, out2) = AtMostOnceReceiver_skip_ahead s1 in (s2, out1 @ out2))
              else (s1, out1))"

definition AtMostOnceReceiver_on_local_message ::
  "AtMostOnceReceiver \<Rightarrow> message \<Rightarrow> AtMostOnceReceiver \<times> action list" where
  "AtMostOnceReceiver_on_local_message s m = (s, [])"

definition AtMostOnceReceiver_on_timer ::
  "AtMostOnceReceiver \<Rightarrow> string \<Rightarrow> AtMostOnceReceiver \<times> action list" where
  "AtMostOnceReceiver_on_timer s timer_name = (s, [])"

section \<open>The windowed reliable sender\<close>

text \<open>
  The classes \<^verbatim>\<open>AtLeastOnceSender\<close>, \<^verbatim>\<open>ExactlyOnceSender\<close> and
  \<^verbatim>\<open>ExactlyOnceOrderedSender\<close> have the same fields and, line for line, the same
  methods; they differ in one constant, \<^verbatim>\<open>_window\<close> (10, 10 and 4). The methods
  are modelled once, on a record that has the window as a field, and each class has
  its own initial state.
\<close>

record Sender =
  receiver :: string
  next_seq :: int
  base :: int
  unacked :: seqdict
  pending :: "string list"
  pending_idx :: nat
  window :: int
  timeout :: real
  timer :: string
  timer_active :: bool

definition Sender_init :: "string \<Rightarrow> int \<Rightarrow> Sender" where
  "Sender_init rid w =
     \<lparr>receiver = rid, next_seq = 1, base = 1, unacked = [], pending = [], pending_idx = 0,
      window = w, timeout = 13 / 2, timer = ''rtx'', timer_active = False\<rparr>"

definition AtLeastOnceSender_init :: "string \<Rightarrow> Sender" where
  "AtLeastOnceSender_init rid = Sender_init rid 10"

definition ExactlyOnceSender_init :: "string \<Rightarrow> Sender" where
  "ExactlyOnceSender_init rid = Sender_init rid 10"

definition ExactlyOnceOrderedSender_init :: "string \<Rightarrow> Sender" where
  "ExactlyOnceOrderedSender_init rid = Sender_init rid 4"

definition has_window_space :: "Sender \<Rightarrow> bool" where
  "has_window_space s = (next_seq s < base s + window s)"

definition arm_timer :: "Sender \<Rightarrow> Sender \<times> action list" where
  "arm_timer s = (s\<lparr>timer_active := True\<rparr>, [SetTimerOnce (timer s) (timeout s)])"

definition disarm_timer :: "Sender \<Rightarrow> Sender \<times> action list" where
  "disarm_timer s =
     (if timer_active s then (s\<lparr>timer_active := False\<rparr>, [CancelTimer (timer s)])
      else (s, []))"

definition restart_timer :: "Sender \<Rightarrow> Sender \<times> action list" where
  "restart_timer s =
     (let (s1, out1) = disarm_timer s; (s2, out2) = arm_timer s1 in (s2, out1 @ out2))"

definition send_data :: "Sender \<Rightarrow> int \<Rightarrow> string \<Rightarrow> action list" where
  "send_data s q t = [Send (DATA q t) (receiver s)]"

text \<open>
  The six lines that assign a sequence number and transmit, which stand both in
  \<^verbatim>\<open>on_local_message\<close> (lines 132 to 138) and in the loop of
  \<^verbatim>\<open>_try_send_pending\<close> (lines 116 to 122):
  \<^verbatim>\<open>
  seq = self._next_seq
  self._next_seq += 1
  was_empty = not self._unacked
  self._unacked[seq] = text
  self._send_data(seq, text, ctx)
  if was_empty:
      self._restart_timer(ctx)
  \<close>
\<close>

definition assign_and_send :: "Sender \<Rightarrow> string \<Rightarrow> Sender \<times> action list" where
  "assign_and_send s t =
     (let q = next_seq s;
          was_empty = (unacked s = []);
          s1 = s\<lparr>next_seq := next_seq s + 1, unacked := AList.update q t (unacked s)\<rparr>;
          out1 = send_data s1 q t
      in if was_empty then (let (s2, out2) = restart_timer s1 in (s2, out1 @ out2))
         else (s1, out1))"

lemma next_seq_assign_and_send [simp]:
  "next_seq (fst (assign_and_send s t)) = next_seq s + 1"
  by (simp add: assign_and_send_def restart_timer_def disarm_timer_def arm_timer_def Let_def)

lemma base_assign_and_send [simp]: "base (fst (assign_and_send s t)) = base s"
  by (simp add: assign_and_send_def restart_timer_def disarm_timer_def arm_timer_def Let_def)

lemma window_assign_and_send [simp]: "window (fst (assign_and_send s t)) = window s"
  by (simp add: assign_and_send_def restart_timer_def disarm_timer_def arm_timer_def Let_def)

lemma pending_assign_and_send [simp]:
  "pending (fst (assign_and_send s t)) = pending s"
  "pending_idx (fst (assign_and_send s t)) = pending_idx s"
  by (simp_all add: assign_and_send_def restart_timer_def disarm_timer_def arm_timer_def Let_def)

function send_pending_loop :: "Sender \<Rightarrow> Sender \<times> action list" where
  "send_pending_loop s =
     (if pending_idx s < length (pending s) \<and> has_window_space s then
        (let t = pending s ! pending_idx s;
             (s1, out1) = assign_and_send (s\<lparr>pending_idx := pending_idx s + 1\<rparr>) t;
             (s2, out2) = send_pending_loop s1
         in (s2, out1 @ out2))
      else (s, []))"
  by pat_completeness auto
termination
proof (relation "measure (\<lambda>s. length (pending s) - pending_idx s)", goal_cases)
  case 1
  show ?case by simp
next
  case (2 s t p s1 out1)
  from 2(3,4) have "assign_and_send (s\<lparr>pending_idx := pending_idx s + 1\<rparr>) t = (s1, out1)"
    by simp
  then have "fst (assign_and_send (s\<lparr>pending_idx := pending_idx s + 1\<rparr>) t) = s1"
    by simp
  then have "pending s1 = pending s" "pending_idx s1 = pending_idx s + 1"
    using pending_assign_and_send [of "s\<lparr>pending_idx := pending_idx s + 1\<rparr>" t] by simp_all
  with 2(1) show ?case by auto
qed

declare send_pending_loop.simps [simp del]

definition try_send_pending :: "Sender \<Rightarrow> Sender \<times> action list" where
  "try_send_pending s =
     (let (s1, out) = send_pending_loop s
      in if pending_idx s1 > 0 \<and> pending_idx s1 * 2 \<ge> length (pending s1)
         then (s1\<lparr>pending := drop (pending_idx s1) (pending s1), pending_idx := 0\<rparr>, out)
         else (s1, out))"

definition Sender_on_local_message :: "Sender \<Rightarrow> message \<Rightarrow> Sender \<times> action list" where
  "Sender_on_local_message s m =
     (if mtype m \<noteq> ''MESSAGE'' then (s, [])
      else if has_window_space s then assign_and_send s (mtext m)
      else (s\<lparr>pending := pending s @ [mtext m]\<rparr>, []))"

text \<open>
  The loop of \<^verbatim>\<open>on_message\<close> that slides \<^verbatim>\<open>_base\<close>; the flag is
  \<^verbatim>\<open>base_changed\<close>.
\<close>

function slide_base :: "Sender \<Rightarrow> bool \<Rightarrow> Sender \<times> bool" where
  "slide_base s base_changed =
     (if base s < next_seq s \<and> map_of (unacked s) (base s) = None
      then slide_base (s\<lparr>base := base s + 1\<rparr>) True
      else (s, base_changed))"
  by pat_completeness auto
termination
  by (relation "measure (\<lambda>(s, c). nat (next_seq s - base s))") auto

declare slide_base.simps [simp del]

definition Sender_on_message :: "Sender \<Rightarrow> message \<Rightarrow> string \<Rightarrow> Sender \<times> action list" where
  "Sender_on_message s m sender =
     (if mtype m \<noteq> ''ACK'' then (s, [])
      else
        let q = mseq m;
            s1 = (if map_of (unacked s) q \<noteq> None
                  then s\<lparr>unacked := AList.delete q (unacked s)\<rparr> else s);
            (s2, base_changed) = slide_base s1 False;
            (s3, out3) = (if unacked s2 = [] then disarm_timer s2
                          else if base_changed then restart_timer s2 else (s2, []));
            (s4, out4) = try_send_pending s3
        in (s4, out3 @ out4))"

definition Sender_on_timer :: "Sender \<Rightarrow> string \<Rightarrow> Sender \<times> action list" where
  "Sender_on_timer s timer_name =
     (if timer_name \<noteq> timer s then (s, [])
      else
        let s1 = s\<lparr>timer_active := False\<rparr>
        in if unacked s1 = [] then (s1, [])
           else
             let q = base s1;
                 out1 = (case map_of (unacked s1) q of
                           Some t \<Rightarrow> send_data s1 q t
                         | None \<Rightarrow> []);
                 (s2, out2) = arm_timer s1
             in (s2, out1 @ out2))"

text \<open>One reaction of a sender to an event of the runtime, and a run of reactions.\<close>

fun Sender_react :: "Sender \<Rightarrow> event \<Rightarrow> Sender \<times> action list" where
  "Sender_react s (Local m) = Sender_on_local_message s m"
| "Sender_react s (Wire m sender) = Sender_on_message s m sender"
| "Sender_react s (Timer timer_name) = Sender_on_timer s timer_name"

fun Sender_run :: "Sender \<Rightarrow> event list \<Rightarrow> Sender \<times> action list" where
  "Sender_run s [] = (s, [])"
| "Sender_run s (e # es) =
     (let (s1, out1) = Sender_react s e; (s2, out2) = Sender_run s1 es
      in (s2, out1 @ out2))"

section \<open>At-least-once receiver\<close>

text \<open>
  The field \<^verbatim>\<open>_id\<close> of every class is written by \<^verbatim>\<open>__init__\<close> and never
  read, so the records leave it out. \<^verbatim>\<open>AtLeastOnceReceiver\<close> has no other
  field: its state is \<open>unit\<close>.
\<close>

definition AtLeastOnceReceiver_on_message ::
  "unit \<Rightarrow> message \<Rightarrow> string \<Rightarrow> unit \<times> action list" where
  "AtLeastOnceReceiver_on_message s m sender =
     (if mtype m \<noteq> ''DATA'' then (s, [])
      else (s, [SendLocal (MESSAGE (mtext m)), Send (ACK (mseq m)) sender]))"

definition AtLeastOnceReceiver_on_local_message :: "unit \<Rightarrow> message \<Rightarrow> unit \<times> action list" where
  "AtLeastOnceReceiver_on_local_message s m = (s, [])"

definition AtLeastOnceReceiver_on_timer :: "unit \<Rightarrow> string \<Rightarrow> unit \<times> action list" where
  "AtLeastOnceReceiver_on_timer s timer_name = (s, [])"

section \<open>Exactly-once-ordered receiver\<close>

record ExactlyOnceOrderedReceiver =
  ord_next_seq :: int
  ord_buffer :: seqdict

definition ExactlyOnceOrderedReceiver_init :: ExactlyOnceOrderedReceiver where
  "ExactlyOnceOrderedReceiver_init = \<lparr>ord_next_seq = 1, ord_buffer = []\<rparr>"

definition ExactlyOnceOrderedReceiver_flush ::
  "ExactlyOnceOrderedReceiver \<Rightarrow> ExactlyOnceOrderedReceiver \<times> action list" where
  "ExactlyOnceOrderedReceiver_flush s =
     (let ((n, buf), out) = flush_loop (ord_next_seq s) (ord_buffer s)
      in (s\<lparr>ord_next_seq := n, ord_buffer := buf\<rparr>, out))"

definition ExactlyOnceOrderedReceiver_on_message ::
  "ExactlyOnceOrderedReceiver \<Rightarrow> message \<Rightarrow> string
     \<Rightarrow> ExactlyOnceOrderedReceiver \<times> action list" where
  "ExactlyOnceOrderedReceiver_on_message s m sender =
     (if mtype m \<noteq> ''DATA'' then (s, [])
      else if mseq m < ord_next_seq s then (s, [Send (ACK (mseq m)) sender])
      else
        let (s1, out1) =
              (if mseq m = ord_next_seq s then
                 (let (s', out) =
                        ExactlyOnceOrderedReceiver_flush (s\<lparr>ord_next_seq := ord_next_seq s + 1\<rparr>)
                  in (s', deliver (mtext m) @ out))
               else if map_of (ord_buffer s) (mseq m) = None
                 then (s\<lparr>ord_buffer := AList.update (mseq m) (mtext m) (ord_buffer s)\<rparr>, [])
                 else (s, []))
        in (s1, out1 @ [Send (ACK (mseq m)) sender]))"

definition ExactlyOnceOrderedReceiver_on_local_message ::
  "ExactlyOnceOrderedReceiver \<Rightarrow> message \<Rightarrow> ExactlyOnceOrderedReceiver \<times> action list" where
  "ExactlyOnceOrderedReceiver_on_local_message s m = (s, [])"

definition ExactlyOnceOrderedReceiver_on_timer ::
  "ExactlyOnceOrderedReceiver \<Rightarrow> string \<Rightarrow> ExactlyOnceOrderedReceiver \<times> action list" where
  "ExactlyOnceOrderedReceiver_on_timer s timer_name = (s, [])"

section \<open>Exactly-once (dedup) receiver\<close>

text \<open>
  The receiver indexes a \<^verbatim>\<open>bytearray\<close> and takes remainders by \<^verbatim>\<open>_win\<close>.
  Python raises \<^verbatim>\<open>IndexError\<close> on an index out of range (after a negative
  index has been counted from the end) and \<^verbatim>\<open>ZeroDivisionError\<close> on a
  remainder by zero. Each exception is a result \<open>Inl\<close> of the model. Python's
  \<^verbatim>\<open>%\<close> on integers is the floored remainder, as \<open>mod\<close> on \<open>int\<close> is.
\<close>

datatype error = IndexError | ZeroDivisionError | ValueError | OverflowError | MemoryError

definition py_mod :: "int \<Rightarrow> int \<Rightarrow> error + int" where
  "py_mod a b = (if b = 0 then Inl ZeroDivisionError else Inr (a mod b))"

definition py_index :: "'a list \<Rightarrow> int \<Rightarrow> error + nat" where
  "py_index xs i =
     (if 0 \<le> i \<and> i < int (length xs) then Inr (nat i)
      else if i < 0 \<and> - int (length xs) \<le> i then Inr (nat (int (length xs) + i))
      else Inl IndexError)"

definition getitem :: "nat list \<Rightarrow> int \<Rightarrow> error + nat" where
  "getitem xs i = (case py_index xs i of Inl e \<Rightarrow> Inl e | Inr j \<Rightarrow> Inr (xs ! j))"

definition setitem :: "nat list \<Rightarrow> int \<Rightarrow> nat \<Rightarrow> error + nat list" where
  "setitem xs i v = (case py_index xs i of Inl e \<Rightarrow> Inl e | Inr j \<Rightarrow> Inr (xs[j := v]))"

text \<open>
  \<^verbatim>\<open>bytearray(n)\<close> allocates \<open>n\<close> zero bytes. CPython first converts
  \<open>n\<close> to a machine index and raises \<^verbatim>\<open>OverflowError\<close> when it does not fit
  (\<open>maxsize\<close> is \<^verbatim>\<open>sys.maxsize\<close> of a 64-bit build), then raises
  \<^verbatim>\<open>ValueError\<close> for a negative count, and raises \<^verbatim>\<open>MemoryError\<close>
  when the allocator does not grant the bytes. What the allocator grants depends on the
  machine, so it is a parameter: \<open>heap\<close> is the largest size it grants.
\<close>

definition maxsize :: int where
  "maxsize = 2 ^ 63 - 1"

definition bytearray :: "int \<Rightarrow> int \<Rightarrow> error + nat list" where
  "bytearray heap n =
     (if n < - maxsize - 1 \<or> maxsize < n then Inl OverflowError
      else if n < 0 then Inl ValueError
      else if heap < n then Inl MemoryError
      else Inr (replicate (nat n) 0))"

record ExactlyOnceReceiver =
  eo_next_seq :: int
  win :: int
  head :: int
  seen :: "nat list"

text \<open>
  The state that \<^verbatim>\<open>__init__\<close> leaves, with the 32 zero bytes of
  \<^verbatim>\<open>bytearray(self._win)\<close>; a receiver exists only when that allocation has
  succeeded.
\<close>

definition ExactlyOnceReceiver_init :: ExactlyOnceReceiver where
  "ExactlyOnceReceiver_init =
     \<lparr>eo_next_seq = 1, win = 32, head = 0, seen = replicate 32 0\<rparr>"

definition advance :: "ExactlyOnceReceiver \<Rightarrow> error + ExactlyOnceReceiver" where
  "advance s =
     (case py_mod (head s + 1) (win s) of
        Inl e \<Rightarrow> Inl e
      | Inr h \<Rightarrow>
          (let s1 = s\<lparr>head := h, eo_next_seq := eo_next_seq s + 1\<rparr>
           in case py_mod (head s1 + win s1 - 1) (win s1) of
                Inl e \<Rightarrow> Inl e
              | Inr tail \<Rightarrow>
                  (case setitem (seen s1) tail 0 of
                     Inl e \<Rightarrow> Inl e
                   | Inr sn \<Rightarrow> Inr (s1\<lparr>seen := sn\<rparr>))))"

text \<open>
  The loop \<^verbatim>\<open>while offset >= new_win and new_win < 1024: new_win *= 2\<close> of
  \<^verbatim>\<open>_ensure_window\<close>. It does not return when it is entered with
  \<open>new_win \<le> 0\<close>; not returning is the value \<open>None\<close>.
\<close>

partial_function (option) grow_win :: "int \<Rightarrow> int \<Rightarrow> int option" where
  "grow_win offset new_win =
     (if offset \<ge> new_win \<and> new_win < 1024 then grow_win offset (new_win * 2)
      else Some new_win)"

text \<open>
  The loop \<^verbatim>\<open>for d in range(min(self._win, new_win))\<close> of
  \<^verbatim>\<open>_ensure_window\<close>, on the list of the values of \<open>d\<close>.
\<close>

fun rehome :: "ExactlyOnceReceiver \<Rightarrow> int list \<Rightarrow> nat list \<Rightarrow> error + nat list" where
  "rehome s [] new_seen = Inr new_seen"
| "rehome s (d # ds) new_seen =
     (case py_mod (head s + d) (win s) of
        Inl e \<Rightarrow> Inl e
      | Inr i \<Rightarrow>
          (case getitem (seen s) i of
             Inl e \<Rightarrow> Inl e
           | Inr b \<Rightarrow>
               (case setitem new_seen d b of
                  Inl e \<Rightarrow> Inl e
                | Inr ns \<Rightarrow> rehome s ds ns)))"

definition ensure_window ::
  "int \<Rightarrow> ExactlyOnceReceiver \<Rightarrow> int \<Rightarrow> (error + ExactlyOnceReceiver) option" where
  "ensure_window heap s offset =
     (if offset < win s then Some (Inr s)
      else
        case grow_win offset (win s) of
          None \<Rightarrow> None
        | Some doubled \<Rightarrow>
            (let new_win = (if offset \<ge> doubled then offset + 1 else doubled)
             in Some
                  (case bytearray heap new_win of
                     Inl e \<Rightarrow> Inl e
                   | Inr zeros \<Rightarrow>
                       (case rehome s [0 .. min (win s) new_win - 1] zeros of
                          Inl e \<Rightarrow> Inl e
                        | Inr new_seen \<Rightarrow>
                            Inr (s\<lparr>win := new_win, seen := new_seen, head := 0\<rparr>)))))"

definition ones :: "nat list \<Rightarrow> nat" where
  "ones xs = length (filter (\<lambda>b. b = 1) xs)"

lemma ones_update_zero_le: "ones (xs[j := 0]) \<le> ones xs"
proof (induction xs arbitrary: j)
  case Nil
  then show ?case by simp
next
  case (Cons x xs)
  then show ?case by (cases j) (auto simp: ones_def le_SucI)
qed

lemma ones_update_zero_less: "j < length xs \<Longrightarrow> xs ! j = 1 \<Longrightarrow> ones (xs[j := 0]) < ones xs"
proof (induction xs arbitrary: j)
  case Nil
  then show ?case by simp
next
  case (Cons x xs)
  then show ?case by (cases j) (auto simp: ones_def)
qed

lemma ones_setitem_le: "setitem xs i 0 = Inr ys \<Longrightarrow> ones ys \<le> ones xs"
  by (auto simp: setitem_def ones_update_zero_le split: sum.splits)

lemma ones_setitem_less:
  "getitem xs i = Inr 1 \<Longrightarrow> setitem xs i 0 = Inr ys \<Longrightarrow> ones ys < ones xs"
  by (auto simp: setitem_def getitem_def py_index_def Let_def ones_update_zero_less
      split: sum.splits if_splits)

lemma ones_advance_le: "advance s = Inr s' \<Longrightarrow> ones (seen s') \<le> ones (seen s)"
  by (auto simp: advance_def Let_def ones_setitem_le split: sum.splits)

text \<open>
  The loop of \<^verbatim>\<open>on_message\<close>:
  \<^verbatim>\<open>
  while self._seen[self._head] == 1:
      self._seen[self._head] = 0
      self._advance()
  \<close>
  Every iteration turns a one of the bitmap into a zero and \<^verbatim>\<open>_advance\<close> writes
  only a zero, so the number of ones is the termination measure.
\<close>

function advance_loop :: "ExactlyOnceReceiver \<Rightarrow> error + ExactlyOnceReceiver" where
  "advance_loop s =
     (case getitem (seen s) (head s) of
        Inl e \<Rightarrow> Inl e
      | Inr b \<Rightarrow>
          if b = 1 then
            (case setitem (seen s) (head s) 0 of
               Inl e \<Rightarrow> Inl e
             | Inr sn \<Rightarrow>
                 (case advance (s\<lparr>seen := sn\<rparr>) of
                    Inl e \<Rightarrow> Inl e
                  | Inr s' \<Rightarrow> advance_loop s'))
          else Inr s)"
  by pat_completeness auto
termination
proof (relation "measure (\<lambda>s. ones (seen s))", goal_cases)
  case 1
  show ?case by simp
next
  case (2 s b sn s')
  from 2(1,2,3) have "ones sn < ones (seen s)"
    by (simp add: ones_setitem_less)
  moreover from 2(4) have "ones (seen s') \<le> ones sn"
    using ones_advance_le [of "s\<lparr>seen := sn\<rparr>" s'] by simp
  ultimately show ?case by simp
qed

declare advance_loop.simps [simp del]

definition ExactlyOnceReceiver_on_message ::
  "int \<Rightarrow> ExactlyOnceReceiver \<Rightarrow> message \<Rightarrow> string
     \<Rightarrow> (error + ExactlyOnceReceiver \<times> action list) option" where
  "ExactlyOnceReceiver_on_message heap s m sender =
     (if mtype m \<noteq> ''DATA'' then Some (Inr (s, []))
      else if mseq m < eo_next_seq s then Some (Inr (s, [Send (ACK (mseq m)) sender]))
      else
        let offset = mseq m - eo_next_seq s
        in case ensure_window heap s offset of
             None \<Rightarrow> None
           | Some (Inl e) \<Rightarrow> Some (Inl e)
           | Some (Inr s1) \<Rightarrow>
               Some
                 (if offset = 0 then
                    (case advance s1 of
                       Inl e \<Rightarrow> Inl e
                     | Inr s2 \<Rightarrow>
                         (case advance_loop s2 of
                            Inl e \<Rightarrow> Inl e
                          | Inr s3 \<Rightarrow>
                              Inr (s3, [SendLocal (MESSAGE (mtext m)),
                                        Send (ACK (mseq m)) sender])))
                  else
                    (case py_mod (head s1 + offset) (win s1) of
                       Inl e \<Rightarrow> Inl e
                     | Inr idx \<Rightarrow>
                         (case getitem (seen s1) idx of
                            Inl e \<Rightarrow> Inl e
                          | Inr b \<Rightarrow>
                              if b = 0 then
                                (case setitem (seen s1) idx 1 of
                                   Inl e \<Rightarrow> Inl e
                                 | Inr sn \<Rightarrow>
                                     Inr (s1\<lparr>seen := sn\<rparr>,
                                          [SendLocal (MESSAGE (mtext m)),
                                           Send (ACK (mseq m)) sender]))
                              else Inr (s1, [Send (ACK (mseq m)) sender])))))"

definition ExactlyOnceReceiver_on_local_message ::
  "ExactlyOnceReceiver \<Rightarrow> message \<Rightarrow> ExactlyOnceReceiver \<times> action list" where
  "ExactlyOnceReceiver_on_local_message s m = (s, [])"

definition ExactlyOnceReceiver_on_timer ::
  "ExactlyOnceReceiver \<Rightarrow> string \<Rightarrow> ExactlyOnceReceiver \<times> action list" where
  "ExactlyOnceReceiver_on_timer s timer_name = (s, [])"

section \<open>The invariant of the windowed sender\<close>

text \<open>
  The code keeps no record of the acknowledgments it has received, so the invariant is
  stated with a set \<open>A\<close> of acknowledged sequence numbers beside the state.
  \<open>window_inv\<close> is the part that holds at every point of a reaction;
  \<open>sender_inv\<close> adds what holds between reactions: the base is outstanding unless
  nothing is, and the flag \<^verbatim>\<open>_timer_active\<close> is set exactly when something is
  outstanding.
\<close>

definition window_inv :: "Sender \<Rightarrow> int set \<Rightarrow> bool" where
  "window_inv s A =
     (base s \<le> next_seq s \<and> next_seq s \<le> base s + window s \<and>
      (\<forall>q. q \<in> A \<longrightarrow> q < next_seq s) \<and>
      (\<forall>q. q \<in> keys (unacked s) \<longleftrightarrow> base s \<le> q \<and> q < next_seq s \<and> q \<notin> A))"

definition sender_inv :: "Sender \<Rightarrow> int set \<Rightarrow> bool" where
  "sender_inv s A =
     (window_inv s A \<and>
      (base s < next_seq s \<longrightarrow> base s \<notin> A) \<and>
      (timer_active s \<longleftrightarrow> unacked s \<noteq> []))"

text \<open>
  The sequence numbers acknowledged along a run: \<^verbatim>\<open>ACK{seq}\<close> acknowledges
  \<open>seq\<close> when it arrives after \<open>seq\<close> has been assigned, that is with
  \<open>seq < next_seq\<close> at the arrival. An \<^verbatim>\<open>ACK\<close> for a number the sender has
  not assigned yet acknowledges nothing: \<^verbatim>\<open>on_message\<close> finds no such key and
  leaves \<^verbatim>\<open>_unacked\<close> as it is.
\<close>

fun acked_by :: "Sender \<Rightarrow> event \<Rightarrow> int set" where
  "acked_by s (Wire m sender) =
     (if mtype m = ''ACK'' \<and> mseq m < next_seq s then {mseq m} else {})"
| "acked_by s (Local m) = {}"
| "acked_by s (Timer timer_name) = {}"

fun acknowledged :: "Sender \<Rightarrow> event list \<Rightarrow> int set" where
  "acknowledged s [] = {}"
| "acknowledged s (e # es) = acked_by s e \<union> acknowledged (fst (Sender_react s e)) es"

text \<open>
  Modelled from the spec: the runtime that delivers the events and carries out the calls
  on the \<^verbatim>\<open>Context\<close> is a library outside the repository. The spec gives the
  contract of its timers: a process can ``arm a one-shot named timer with a relative
  duration'' and ``cancel a named timer (idempotent if already inactive)'', and the runtime
  delivers a ``named timer expiry''. So the timers of a process that are armed form a set
  of names: \<^verbatim>\<open>set_timer_once\<close> puts the name in, \<^verbatim>\<open>cancel_timer\<close>
  takes it out, and a one-shot timer that expires is taken out when the runtime delivers
  the expiry, before \<^verbatim>\<open>on_timer\<close> runs. \<open>armed_timers s es T\<close> is the set
  after the run \<open>es\<close> from state \<open>s\<close> with the timers \<open>T\<close> armed at the start; it
  is computed from the calls the handlers make, not from the field
  \<^verbatim>\<open>_timer_active\<close>.
\<close>

fun timer_call :: "string set \<Rightarrow> action \<Rightarrow> string set" where
  "timer_call T (SetTimerOnce n d) = insert n T"
| "timer_call T (CancelTimer n) = T - {n}"
| "timer_call T (Send m r) = T"
| "timer_call T (SendLocal m) = T"

fun timer_fire :: "string set \<Rightarrow> event \<Rightarrow> string set" where
  "timer_fire T (Timer n) = T - {n}"
| "timer_fire T (Local m) = T"
| "timer_fire T (Wire m sender) = T"

fun armed_timers :: "Sender \<Rightarrow> event list \<Rightarrow> string set \<Rightarrow> string set" where
  "armed_timers s [] T = T"
| "armed_timers s (e # es) T =
     armed_timers (fst (Sender_react s e)) es
       (foldl timer_call (timer_fire T e) (snd (Sender_react s e)))"

subsection \<open>Preservation\<close>

lemma keys_Nil [simp]: "keys [] = {}"
  by (simp add: keys_def)

lemma keys_empty_iff [simp]: "keys d = {} \<longleftrightarrow> d = []"
  by (simp add: keys_def)

lemma keys_update [simp]: "keys (AList.update k v d) = insert k (keys d)"
  by (induction d) (auto simp: keys_def)

lemma keys_delete [simp]: "keys (AList.delete k d) = keys d - {k}"
  by (auto simp: keys_def AList.delete_eq)

lemma map_of_None_keys: "map_of d k = None \<longleftrightarrow> k \<notin> keys d"
  by (simp add: keys_def map_of_eq_None_iff)

lemma update_not_Nil [simp]: "AList.update k v d \<noteq> []"
  by (cases d) auto

lemma sender_inv_base_key:
  assumes "sender_inv s A" "unacked s \<noteq> []"
  shows "base s \<in> keys (unacked s)"
proof -
  from assms(2) obtain q where "q \<in> keys (unacked s)"
    using keys_empty_iff [of "unacked s"] by blast
  with assms(1) have "base s < next_seq s"
    by (simp add: sender_inv_def window_inv_def)
  with assms(1) show ?thesis
    by (simp add: sender_inv_def window_inv_def)
qed

lemma sender_inv_empty:
  assumes "sender_inv s A" "unacked s = []"
  shows "base s = next_seq s"
proof (rule ccontr)
  assume "base s \<noteq> next_seq s"
  with assms(1) have "base s < next_seq s" "base s \<notin> A"
    by (simp_all add: sender_inv_def window_inv_def)
  with assms(1) have "base s \<in> keys (unacked s)"
    by (simp add: sender_inv_def window_inv_def)
  with assms(2) show False by simp
qed

lemma unacked_assign_and_send [simp]:
  "unacked (fst (assign_and_send s t)) = AList.update (next_seq s) t (unacked s)"
  by (simp add: assign_and_send_def restart_timer_def disarm_timer_def arm_timer_def Let_def)

lemma timer_active_assign_and_send [simp]:
  "timer_active (fst (assign_and_send s t)) = (unacked s = [] \<or> timer_active s)"
  by (simp add: assign_and_send_def restart_timer_def disarm_timer_def arm_timer_def Let_def)

lemma assign_and_send_inv:
  assumes "sender_inv s A" "has_window_space s"
  shows "sender_inv (fst (assign_and_send s t)) A"
proof -
  let ?s' = "fst (assign_and_send s t)"
  from assms(1) have i: "base s \<le> next_seq s" "\<forall>q. q \<in> A \<longrightarrow> q < next_seq s"
    "\<forall>q. q \<in> keys (unacked s) \<longleftrightarrow> base s \<le> q \<and> q < next_seq s \<and> q \<notin> A"
    "base s < next_seq s \<longrightarrow> base s \<notin> A" "timer_active s \<longleftrightarrow> unacked s \<noteq> []"
    by (simp_all add: sender_inv_def window_inv_def)
  have n: "next_seq s \<notin> A" using i(2) by auto
  have k: "q \<in> keys (unacked ?s') \<longleftrightarrow> base s \<le> q \<and> q < next_seq s + 1 \<and> q \<notin> A" for q
    using i(1) n by (cases "q = next_seq s") (auto simp: i(3))
  have b: "base s \<notin> A"
    using i(1,4) n by (cases "base s < next_seq s") auto
  have a: "\<forall>q. q \<in> A \<longrightarrow> q < next_seq s + 1" using i(2) by auto
  have w: "next_seq s + 1 \<le> base s + window s"
    using assms(2) by (simp add: has_window_space_def)
  show ?thesis
    unfolding sender_inv_def window_inv_def
    using i(1,5) k b a w by simp
qed

lemma sender_inv_pending [simp]:
  "sender_inv (s\<lparr>pending_idx := i\<rparr>) A = sender_inv s A"
  "sender_inv (s\<lparr>pending := p\<rparr>) A = sender_inv s A"
  by (simp_all add: sender_inv_def window_inv_def)

lemma has_window_space_pending [simp]:
  "has_window_space (s\<lparr>pending_idx := i\<rparr>) = has_window_space s"
  by (simp add: has_window_space_def)

lemma send_pending_loop_stop:
  "\<not> (pending_idx s < length (pending s) \<and> has_window_space s)
     \<Longrightarrow> send_pending_loop s = (s, [])"
  by (subst send_pending_loop.simps) auto

lemma send_pending_loop_step:
  "pending_idx s < length (pending s) \<Longrightarrow> has_window_space s \<Longrightarrow>
   send_pending_loop s =
     (let (s1, out1) = assign_and_send (s\<lparr>pending_idx := pending_idx s + 1\<rparr>)
                         (pending s ! pending_idx s);
          (s2, out2) = send_pending_loop s1
      in (s2, out1 @ out2))"
  by (subst send_pending_loop.simps) (simp add: Let_def)

lemma send_pending_loop_inv:
  "sender_inv s A \<Longrightarrow> sender_inv (fst (send_pending_loop s)) A"
proof (induction s rule: send_pending_loop.induct)
  case (1 s)
  show ?case
  proof (cases "pending_idx s < length (pending s) \<and> has_window_space s")
    case False
    with 1(2) show ?thesis by (simp add: send_pending_loop_stop)
  next
    case True
    define t where "t = pending s ! pending_idx s"
    define p where "p = assign_and_send (s\<lparr>pending_idx := pending_idx s + 1\<rparr>) t"
    have inv1: "sender_inv (fst p) A"
      unfolding p_def using 1(2) True by (intro assign_and_send_inv) simp_all
    have "sender_inv (fst (send_pending_loop (fst p))) A"
      using 1(1) [OF True t_def p_def, of "fst p" "snd p"] inv1 by simp
    then show ?thesis
      using True unfolding p_def t_def
      by (simp add: send_pending_loop_step Let_def case_prod_beta)
  qed
qed

lemma try_send_pending_inv:
  "sender_inv s A \<Longrightarrow> sender_inv (fst (try_send_pending s)) A"
  using send_pending_loop_inv [of s A]
  by (simp add: try_send_pending_def Let_def case_prod_beta)

lemma slide_base_stop:
  "\<not> (base s < next_seq s \<and> map_of (unacked s) (base s) = None)
     \<Longrightarrow> slide_base s c = (s, c)"
  by (subst slide_base.simps) auto

lemma slide_base_step:
  "base s < next_seq s \<Longrightarrow> map_of (unacked s) (base s) = None
     \<Longrightarrow> slide_base s c = slide_base (s\<lparr>base := base s + 1\<rparr>) True"
  by (subst slide_base.simps) simp

lemma slide_base_pres:
  assumes "\<And>s. f (s\<lparr>base := base s + 1\<rparr>) = f s"
  shows "f (fst (slide_base s c)) = f s"
proof (induction s c rule: slide_base.induct)
  case (1 s c)
  show ?case
  proof (cases "base s < next_seq s \<and> map_of (unacked s) (base s) = None")
    case True
    then have "slide_base s c = slide_base (s\<lparr>base := base s + 1\<rparr>) True"
      by (simp add: slide_base_step)
    with 1 [OF True] assms show ?thesis by simp
  next
    case False
    then show ?thesis by (simp add: slide_base_stop)
  qed
qed

lemma slide_base_fields [simp]:
  "unacked (fst (slide_base s c)) = unacked s"
  "next_seq (fst (slide_base s c)) = next_seq s"
  "window (fst (slide_base s c)) = window s"
  "timer_active (fst (slide_base s c)) = timer_active s"
  by (rule slide_base_pres, simp)+

lemma slide_base_inv:
  "window_inv s A \<Longrightarrow>
   window_inv (fst (slide_base s c)) A \<and>
   (base (fst (slide_base s c)) < next_seq s \<longrightarrow> base (fst (slide_base s c)) \<notin> A)"
proof (induction s c rule: slide_base.induct)
  case (1 s c)
  show ?case
  proof (cases "base s < next_seq s \<and> map_of (unacked s) (base s) = None")
    case True
    then have e: "slide_base s c = slide_base (s\<lparr>base := base s + 1\<rparr>) True"
      by (simp add: slide_base_step)
    from True have nk: "base s \<notin> keys (unacked s)"
      by (simp add: map_of_None_keys)
    with True 1(2) have inA: "base s \<in> A"
      by (simp add: window_inv_def)
    have k: "q \<in> keys (unacked s) \<longleftrightarrow> base s + 1 \<le> q \<and> q < next_seq s \<and> q \<notin> A" for q
      using 1(2) inA by (cases "q = base s") (auto simp: window_inv_def)
    have "window_inv (s\<lparr>base := base s + 1\<rparr>) A"
      using 1(2) True k by (simp add: window_inv_def)
    from 1(1) [OF True this] show ?thesis by (simp add: e)
  next
    case False
    then have e: "slide_base s c = (s, c)" by (simp add: slide_base_stop)
    from False 1(2) have "base s < next_seq s \<longrightarrow> base s \<notin> A"
      by (auto simp: map_of_None_keys window_inv_def)
    with 1(2) show ?thesis by (simp add: e)
  qed
qed

lemma slide_base_flag:
  "snd (slide_base s c) \<or> (\<not> c \<and> fst (slide_base s c) = s)"
proof (induction s c rule: slide_base.induct)
  case (1 s c)
  show ?case
  proof (cases "base s < next_seq s \<and> map_of (unacked s) (base s) = None")
    case True
    then have e: "slide_base s c = slide_base (s\<lparr>base := base s + 1\<rparr>) True"
      by (simp add: slide_base_step)
    from 1 [OF True] show ?thesis by (simp add: e)
  next
    case False
    then show ?thesis by (simp add: slide_base_stop)
  qed
qed


lemma timer_fields [simp]:
  "fst (arm_timer s) = s\<lparr>timer_active := True\<rparr>"
  "fst (restart_timer s) = s\<lparr>timer_active := True\<rparr>"
  "timer_active (fst (disarm_timer s)) = False"
  "unacked (fst (disarm_timer s)) = unacked s"
  "next_seq (fst (disarm_timer s)) = next_seq s"
  "base (fst (disarm_timer s)) = base s"
  "window (fst (disarm_timer s)) = window s"
  by (simp_all add: arm_timer_def restart_timer_def disarm_timer_def)

lemma Sender_on_message_inv:
  assumes "sender_inv s A"
  shows "sender_inv (fst (Sender_on_message s m sender)) (A \<union> acked_by s (Wire m sender))"
proof (cases "mtype m = ''ACK''")
  case False
  with assms show ?thesis by (simp add: Sender_on_message_def)
next
  case True
  define q where "q = mseq m"
  define A' where "A' = A \<union> acked_by s (Wire m sender)"
  define s1 where
    "s1 = (if map_of (unacked s) q \<noteq> None then s\<lparr>unacked := AList.delete q (unacked s)\<rparr> else s)"
  define s2 where "s2 = fst (slide_base s1 False)"
  define ch where "ch = snd (slide_base s1 False)"
  define s3 where
    "s3 = fst (if unacked s2 = [] then disarm_timer s2
               else if ch then restart_timer s2 else (s2, []))"
  from assms have i: "base s \<le> next_seq s" "next_seq s \<le> base s + window s"
    "\<forall>x. x \<in> A \<longrightarrow> x < next_seq s"
    "\<forall>x. x \<in> keys (unacked s) \<longleftrightarrow> base s \<le> x \<and> x < next_seq s \<and> x \<notin> A"
    "timer_active s \<longleftrightarrow> unacked s \<noteq> []"
    by (simp_all add: sender_inv_def window_inv_def)
  have A': "x \<in> A' \<longleftrightarrow> x \<in> A \<or> (x = q \<and> q < next_seq s)" for x
    using True by (auto simp: A'_def q_def)
  have f1: "next_seq s1 = next_seq s" "base s1 = base s" "window s1 = window s"
    "timer_active s1 = timer_active s"
    by (simp_all add: s1_def)
  have k1: "keys (unacked s1) = keys (unacked s) - {q}"
    by (auto simp: s1_def map_of_None_keys)
  have k1': "x \<in> keys (unacked s1) \<longleftrightarrow> base s \<le> x \<and> x < next_seq s \<and> x \<notin> A'" for x
    unfolding k1 A' using i(4) by (cases "x = q") auto
  have w1: "window_inv s1 A'"
    unfolding window_inv_def f1 using i(1,2,3) k1' A' by auto
  have w2: "window_inv s2 A'" "base s2 < next_seq s \<longrightarrow> base s2 \<notin> A'"
    using slide_base_inv [OF w1, of False] by (simp_all add: s2_def f1)
  have f2: "unacked s2 = unacked s1" "next_seq s2 = next_seq s" "timer_active s2 = timer_active s"
    by (simp_all add: s2_def f1)
  have ne: "unacked s \<noteq> []" if "unacked s1 \<noteq> []"
  proof
    assume "unacked s = []"
    then have "keys (unacked s1) = {}" by (simp add: k1)
    with that show False by simp
  qed
  have ch: "ch \<or> s2 = s1"
    using slide_base_flag [of s1 False] by (auto simp: ch_def s2_def)
  have t3: "timer_active s3 \<longleftrightarrow> unacked s2 \<noteq> []"
    using ne i(5) by (simp add: s3_def f2)
  have u3: "unacked s3 = unacked s2" "next_seq s3 = next_seq s2" "base s3 = base s2"
    "window s3 = window s2"
    by (simp_all add: s3_def)
  have "sender_inv s3 A'"
    unfolding sender_inv_def window_inv_def u3
    using w2 t3 by (simp add: window_inv_def f2)
  then have "sender_inv (fst (try_send_pending s3)) A'"
    by (rule try_send_pending_inv)
  moreover have "fst (Sender_on_message s m sender) = fst (try_send_pending s3)"
    using True
    by (simp add: Sender_on_message_def Let_def case_prod_beta s3_def ch_def s2_def s1_def q_def)
  ultimately show ?thesis by (simp add: A'_def)
qed


lemma Sender_on_local_message_inv:
  assumes "sender_inv s A"
  shows "sender_inv (fst (Sender_on_local_message s m)) A"
  using assms assign_and_send_inv [of s A "mtext m"]
  by (simp add: Sender_on_local_message_def)

lemma sender_inv_timer_active:
  "sender_inv s A \<Longrightarrow> sender_inv (s\<lparr>timer_active := unacked s \<noteq> []\<rparr>) A"
  by (simp add: sender_inv_def window_inv_def)

lemma Sender_on_timer_state:
  "fst (Sender_on_timer s timer_name) =
     (if timer_name \<noteq> timer s then s else s\<lparr>timer_active := unacked s \<noteq> []\<rparr>)"
  by (simp add: Sender_on_timer_def Let_def case_prod_beta)

lemma Sender_on_timer_inv:
  assumes "sender_inv s A"
  shows "sender_inv (fst (Sender_on_timer s timer_name)) A"
  using assms sender_inv_timer_active [OF assms]
  by (simp add: Sender_on_timer_state)

lemma Sender_react_inv:
  "sender_inv s A \<Longrightarrow> sender_inv (fst (Sender_react s e)) (A \<union> acked_by s e)"
proof (cases e)
  case (Local m)
  assume "sender_inv s A"
  then show ?thesis using Local by (simp add: Sender_on_local_message_inv)
next
  case (Wire m sender)
  assume "sender_inv s A"
  then show ?thesis
    unfolding Wire Sender_react.simps by (rule Sender_on_message_inv)
next
  case (Timer n)
  assume "sender_inv s A"
  then show ?thesis using Timer by (simp add: Sender_on_timer_inv)
qed

lemma Sender_run_inv:
  "sender_inv s A \<Longrightarrow> sender_inv (fst (Sender_run s es)) (A \<union> acknowledged s es)"
proof (induction es arbitrary: s A)
  case Nil
  then show ?case by simp
next
  case (Cons e es)
  from Cons.prems have "sender_inv (fst (Sender_react s e)) (A \<union> acked_by s e)"
    by (rule Sender_react_inv)
  from Cons.IH [OF this] show ?case
    by (simp add: case_prod_beta Let_def Un_assoc)
qed

lemma Sender_init_inv: "0 \<le> w \<Longrightarrow> sender_inv (Sender_init rid w) {}"
  by (simp add: sender_inv_def window_inv_def Sender_init_def)

subsection \<open>The flag and the timer of the runtime\<close>

text \<open>
  \<open>timer_agrees\<close> says that the field \<^verbatim>\<open>_timer_active\<close> tells the truth about
  the runtime: the sender's timer is armed exactly when the flag is set, and no other
  timer is. Every method that touches the flag makes the matching call.
\<close>

definition timer_agrees :: "Sender \<Rightarrow> string set \<Rightarrow> bool" where
  "timer_agrees s T = (T = (if timer_active s then {timer s} else {}))"

lemma timer_agrees_fields [simp]:
  "timer_agrees (s\<lparr>pending_idx := i\<rparr>) T = timer_agrees s T"
  "timer_agrees (s\<lparr>pending := p\<rparr>) T = timer_agrees s T"
  "timer_agrees (s\<lparr>unacked := u\<rparr>) T = timer_agrees s T"
  "timer_agrees (s\<lparr>next_seq := n\<rparr>) T = timer_agrees s T"
  "timer_agrees (s\<lparr>base := b\<rparr>) T = timer_agrees s T"
  by (simp_all add: timer_agrees_def)

lemma arm_timer_agrees:
  "timer_agrees s T \<Longrightarrow> timer_agrees (fst (arm_timer s)) (foldl timer_call T (snd (arm_timer s)))"
  by (auto simp: timer_agrees_def arm_timer_def)

lemma disarm_timer_agrees:
  "timer_agrees s T \<Longrightarrow>
   timer_agrees (fst (disarm_timer s)) (foldl timer_call T (snd (disarm_timer s)))"
  by (auto simp: timer_agrees_def disarm_timer_def)

lemma restart_timer_agrees:
  "timer_agrees s T \<Longrightarrow>
   timer_agrees (fst (restart_timer s)) (foldl timer_call T (snd (restart_timer s)))"
  by (auto simp: timer_agrees_def restart_timer_def disarm_timer_def arm_timer_def)

lemma assign_and_send_agrees:
  "timer_agrees s T \<Longrightarrow>
   timer_agrees (fst (assign_and_send s t)) (foldl timer_call T (snd (assign_and_send s t)))"
  by (auto simp: timer_agrees_def assign_and_send_def restart_timer_def disarm_timer_def
      arm_timer_def send_data_def Let_def)

lemma send_pending_loop_agrees:
  "timer_agrees s T \<Longrightarrow>
   timer_agrees (fst (send_pending_loop s)) (foldl timer_call T (snd (send_pending_loop s)))"
proof (induction s arbitrary: T rule: send_pending_loop.induct)
  case (1 s)
  show ?case
  proof (cases "pending_idx s < length (pending s) \<and> has_window_space s")
    case False
    with 1(2) show ?thesis by (simp add: send_pending_loop_stop)
  next
    case True
    define p where
      "p = assign_and_send (s\<lparr>pending_idx := pending_idx s + 1\<rparr>) (pending s ! pending_idx s)"
    have a1: "timer_agrees (fst p) (foldl timer_call T (snd p))"
      unfolding p_def using 1(2) by (intro assign_and_send_agrees) simp
    have "timer_agrees (fst (send_pending_loop (fst p)))
            (foldl timer_call (foldl timer_call T (snd p)) (snd (send_pending_loop (fst p))))"
      using 1(1) [OF True refl p_def, of "fst p" "snd p"] a1 by simp
    then show ?thesis
      using True unfolding p_def
      by (simp add: send_pending_loop_step Let_def case_prod_beta)
  qed
qed

lemma try_send_pending_agrees:
  "timer_agrees s T \<Longrightarrow>
   timer_agrees (fst (try_send_pending s)) (foldl timer_call T (snd (try_send_pending s)))"
  using send_pending_loop_agrees [of s T]
  by (simp add: try_send_pending_def Let_def case_prod_beta)

lemma slide_base_agrees: "timer_agrees (fst (slide_base s c)) T = timer_agrees s T"
  by (rule slide_base_pres) simp

lemma Sender_on_local_message_agrees:
  "timer_agrees s T \<Longrightarrow>
   timer_agrees (fst (Sender_on_local_message s m))
     (foldl timer_call T (snd (Sender_on_local_message s m)))"
  by (simp add: Sender_on_local_message_def assign_and_send_agrees)

lemma Sender_on_message_agrees:
  assumes "timer_agrees s T"
  shows "timer_agrees (fst (Sender_on_message s m sender))
           (foldl timer_call T (snd (Sender_on_message s m sender)))"
proof (cases "mtype m = ''ACK''")
  case False
  with assms show ?thesis by (simp add: Sender_on_message_def)
next
  case True
  define s1 where
    "s1 = (if map_of (unacked s) (mseq m) \<noteq> None
           then s\<lparr>unacked := AList.delete (mseq m) (unacked s)\<rparr> else s)"
  define s2 where "s2 = fst (slide_base s1 False)"
  define ch where "ch = snd (slide_base s1 False)"
  define p3 where
    "p3 = (if unacked s2 = [] then disarm_timer s2
           else if ch then restart_timer s2 else (s2, []))"
  have "timer_agrees s1 T" using assms by (simp add: s1_def)
  then have "timer_agrees s2 T" by (simp add: s2_def slide_base_agrees)
  then have "timer_agrees (fst p3) (foldl timer_call T (snd p3))"
    unfolding p3_def
    using disarm_timer_agrees [of s2 T] restart_timer_agrees [of s2 T]
    by (simp del: timer_fields)
  then have "timer_agrees (fst (try_send_pending (fst p3)))
      (foldl timer_call (foldl timer_call T (snd p3)) (snd (try_send_pending (fst p3))))"
    by (rule try_send_pending_agrees)
  moreover have "Sender_on_message s m sender =
      (fst (try_send_pending (fst p3)), snd p3 @ snd (try_send_pending (fst p3)))"
    using True
    by (simp add: Sender_on_message_def Let_def case_prod_beta p3_def ch_def s2_def s1_def)
  ultimately show ?thesis by simp
qed

lemma Sender_on_timer_agrees:
  "timer_agrees s T \<Longrightarrow>
   timer_agrees (fst (Sender_on_timer s n)) (foldl timer_call (T - {n}) (snd (Sender_on_timer s n)))"
  by (auto simp: timer_agrees_def Sender_on_timer_def arm_timer_def send_data_def Let_def
      split: option.splits)

lemma Sender_react_agrees:
  "timer_agrees s T \<Longrightarrow>
   timer_agrees (fst (Sender_react s e))
     (foldl timer_call (timer_fire T e) (snd (Sender_react s e)))"
  by (cases e)
    (simp_all add: Sender_on_local_message_agrees Sender_on_message_agrees
      Sender_on_timer_agrees)

lemma Sender_run_agrees:
  "timer_agrees s T \<Longrightarrow> timer_agrees (fst (Sender_run s es)) (armed_timers s es T)"
proof (induction es arbitrary: s T)
  case Nil
  then show ?case by simp
next
  case (Cons e es)
  from Cons.IH [OF Sender_react_agrees [OF Cons.prems, of e]] show ?case
    by (simp add: case_prod_beta Let_def)
qed

lemma timer_assign_and_send [simp]: "timer (fst (assign_and_send s t)) = timer s"
  by (simp add: assign_and_send_def restart_timer_def disarm_timer_def arm_timer_def Let_def)

lemma timer_send_pending_loop [simp]: "timer (fst (send_pending_loop s)) = timer s"
proof (induction s rule: send_pending_loop.induct)
  case (1 s)
  show ?case
  proof (cases "pending_idx s < length (pending s) \<and> has_window_space s")
    case False
    then show ?thesis by (simp add: send_pending_loop_stop)
  next
    case True
    define p where
      "p = assign_and_send (s\<lparr>pending_idx := pending_idx s + 1\<rparr>) (pending s ! pending_idx s)"
    have "timer (fst (send_pending_loop (fst p))) = timer (fst p)"
      using 1 [OF True refl p_def, of "fst p" "snd p"] by simp
    then show ?thesis
      using True unfolding p_def
      by (simp add: send_pending_loop_step Let_def case_prod_beta)
  qed
qed

lemma timer_try_send_pending [simp]: "timer (fst (try_send_pending s)) = timer s"
  by (simp add: try_send_pending_def Let_def case_prod_beta)

lemma timer_slide_base [simp]: "timer (fst (slide_base s c)) = timer s"
  by (rule slide_base_pres) simp

lemma timer_disarm_timer [simp]: "timer (fst (disarm_timer s)) = timer s"
  by (simp add: disarm_timer_def)

lemma timer_react [simp]: "timer (fst (Sender_react s e)) = timer s"
  by (cases e)
    (simp_all add: Sender_on_local_message_def Sender_on_message_def Sender_on_timer_state
      Let_def case_prod_beta)

lemma timer_run [simp]: "timer (fst (Sender_run s es)) = timer s"
  by (induction es arbitrary: s) (simp_all add: Let_def case_prod_beta)

section \<open>Claims about the windowed sender\<close>

text \<open>
  The three sender classes start from \<open>AtLeastOnceSender_init\<close>,
  \<open>ExactlyOnceSender_init\<close> and \<open>ExactlyOnceOrderedSender_init\<close>; a reachable
  state is the state after a run of reactions, in any order, from one of them.
\<close>

definition sender_variant :: "Sender \<Rightarrow> bool" where
  "sender_variant s0 =
     (\<exists>rid. s0 = AtLeastOnceSender_init rid \<or> s0 = ExactlyOnceSender_init rid \<or>
            s0 = ExactlyOnceOrderedSender_init rid)"

lemma sender_variant_inv: "sender_variant s0 \<Longrightarrow> sender_inv s0 {}"
  by (auto simp: sender_variant_def AtLeastOnceSender_init_def ExactlyOnceSender_init_def
      ExactlyOnceOrderedSender_init_def Sender_init_inv)

lemma sender_variant_agrees: "sender_variant s0 \<Longrightarrow> timer_agrees s0 {}"
  by (auto simp: sender_variant_def timer_agrees_def AtLeastOnceSender_init_def
      ExactlyOnceSender_init_def ExactlyOnceOrderedSender_init_def Sender_init_def)

lemma sender_variant_timer: "sender_variant s0 \<Longrightarrow> timer s0 = ''rtx''"
  by (auto simp: sender_variant_def AtLeastOnceSender_init_def
      ExactlyOnceSender_init_def ExactlyOnceOrderedSender_init_def Sender_init_def)

lemma window_send_pending_loop [simp]: "window (fst (send_pending_loop s)) = window s"
proof (induction s rule: send_pending_loop.induct)
  case (1 s)
  show ?case
  proof (cases "pending_idx s < length (pending s) \<and> has_window_space s")
    case False
    then show ?thesis by (simp add: send_pending_loop_stop)
  next
    case True
    define p where
      "p = assign_and_send (s\<lparr>pending_idx := pending_idx s + 1\<rparr>) (pending s ! pending_idx s)"
    have "window (fst (send_pending_loop (fst p))) = window (fst p)"
      using 1 [OF True refl p_def, of "fst p" "snd p"] by simp
    then show ?thesis
      using True unfolding p_def
      by (simp add: send_pending_loop_step Let_def case_prod_beta)
  qed
qed

lemma window_try_send_pending [simp]: "window (fst (try_send_pending s)) = window s"
  by (simp add: try_send_pending_def Let_def case_prod_beta)

lemma window_react [simp]: "window (fst (Sender_react s e)) = window s"
  by (cases e)
    (simp_all add: Sender_on_local_message_def Sender_on_message_def Sender_on_timer_state
      Let_def case_prod_beta)

lemma window_run [simp]: "window (fst (Sender_run s es)) = window s"
  by (induction es arbitrary: s) (simp_all add: Let_def case_prod_beta)

text \<open>
  Claim C3. Window invariant: after any sequence of application inputs, wire arrivals
  and timer fires, from the initial state of each of the three sender classes,
  \<open>next_seq - base\<close> is at most the window size of the class: 10 for the
  at-least-once and the exactly-once sender, 4 for the ordered one.
\<close>

theorem window_never_exceeded:
  "next_seq (fst (Sender_run (AtLeastOnceSender_init rid) es))
     - base (fst (Sender_run (AtLeastOnceSender_init rid) es)) \<le> 10 \<and>
   next_seq (fst (Sender_run (ExactlyOnceSender_init rid) es))
     - base (fst (Sender_run (ExactlyOnceSender_init rid) es)) \<le> 10 \<and>
   next_seq (fst (Sender_run (ExactlyOnceOrderedSender_init rid) es))
     - base (fst (Sender_run (ExactlyOnceOrderedSender_init rid) es)) \<le> 4"
proof -
  have "next_seq (fst (Sender_run (Sender_init rid w) es))
          - base (fst (Sender_run (Sender_init rid w) es)) \<le> w" if "0 \<le> w" for w
  proof -
    have "sender_inv (fst (Sender_run (Sender_init rid w) es))
            ({} \<union> acknowledged (Sender_init rid w) es)"
      using that by (intro Sender_run_inv Sender_init_inv)
    then have "next_seq (fst (Sender_run (Sender_init rid w) es))
        \<le> base (fst (Sender_run (Sender_init rid w) es))
          + window (fst (Sender_run (Sender_init rid w) es))"
      by (simp add: sender_inv_def window_inv_def)
    then show ?thesis by (simp add: Sender_init_def)
  qed
  from this [of 10] this [of 4] show ?thesis
    by (simp add: AtLeastOnceSender_init_def ExactlyOnceSender_init_def
        ExactlyOnceOrderedSender_init_def)
qed

text \<open>
  Claim C4. State invariant of the windowed sender, after any sequence of reactions from
  the initial state of one of the three classes: the keys of \<^verbatim>\<open>_unacked\<close> are
  exactly the sequence numbers \<open>q\<close> with \<open>base \<le> q \<le> next_seq - 1\<close> that have
  not been acknowledged (no \<^verbatim>\<open>ACK{q}\<close> has arrived since \<open>q\<close> was assigned);
  the base is a key of \<^verbatim>\<open>_unacked\<close> unless \<^verbatim>\<open>_unacked\<close> is empty; and
  the retransmission timer \<^verbatim>\<open>rtx\<close> is armed in the runtime if and only if
  \<^verbatim>\<open>_unacked\<close> is not empty: the timers left armed by the calls
  \<^verbatim>\<open>set_timer_once\<close> and \<^verbatim>\<open>cancel_timer\<close> of the run and by the
  expiries are \<open>{''rtx''}\<close> in that case and none otherwise. The flag
  \<^verbatim>\<open>_timer_active\<close> says the same. Every reaction preserves the invariant
  (\<open>Sender_react_inv\<close>, \<open>Sender_react_agrees\<close>), which is how the theorem is
  proved.
\<close>

theorem sender_state_invariant:
  assumes "sender_variant s0"
  shows
    "keys (unacked (fst (Sender_run s0 es))) =
       {q. base (fst (Sender_run s0 es)) \<le> q \<and> q \<le> next_seq (fst (Sender_run s0 es)) - 1 \<and>
           q \<notin> acknowledged s0 es} \<and>
     (unacked (fst (Sender_run s0 es)) = [] \<or>
      base (fst (Sender_run s0 es)) \<in> keys (unacked (fst (Sender_run s0 es)))) \<and>
     armed_timers s0 es {} = (if unacked (fst (Sender_run s0 es)) = [] then {} else {''rtx''}) \<and>
     (timer_active (fst (Sender_run s0 es)) \<longleftrightarrow> unacked (fst (Sender_run s0 es)) \<noteq> [])"
proof -
  let ?s = "fst (Sender_run s0 es)"
  have inv: "sender_inv ?s (acknowledged s0 es)"
    using Sender_run_inv [OF sender_variant_inv [OF assms], of es] by simp
  have "q \<in> keys (unacked ?s) \<longleftrightarrow>
          base ?s \<le> q \<and> q \<le> next_seq ?s - 1 \<and> q \<notin> acknowledged s0 es" for q
    using inv by (simp add: sender_inv_def window_inv_def)
  then have "keys (unacked ?s) =
      {q. base ?s \<le> q \<and> q \<le> next_seq ?s - 1 \<and> q \<notin> acknowledged s0 es}"
    by (intro set_eqI) simp
  moreover have "unacked ?s = [] \<or> base ?s \<in> keys (unacked ?s)"
    using sender_inv_base_key [OF inv] by blast
  moreover have flag: "timer_active ?s \<longleftrightarrow> unacked ?s \<noteq> []"
    using inv by (simp add: sender_inv_def)
  moreover have "armed_timers s0 es {} = (if unacked ?s = [] then {} else {''rtx''})"
    using Sender_run_agrees [OF sender_variant_agrees [OF assms], of es] flag
      sender_variant_timer [OF assms]
    by (simp add: timer_agrees_def)
  ultimately show ?thesis by blast
qed

lemmas sender_eval =
  Sender_on_local_message_def Sender_on_message_def Sender_on_timer_def
  AtLeastOnceSender_init_def ExactlyOnceSender_init_def ExactlyOnceOrderedSender_init_def
  Sender_init_def has_window_space_def assign_and_send_def restart_timer_def
  disarm_timer_def arm_timer_def send_data_def try_send_pending_def
  send_pending_loop.simps slide_base.simps MESSAGE_def ACK_def DATA_def Let_def

lemma sender_example_run:
  "fst (Sender_run (AtLeastOnceSender_init ''r'')
         [Local (MESSAGE ''a''), Local (MESSAGE ''b''), Wire (ACK 1) ''r''])
   = \<lparr>receiver = ''r'', next_seq = 3, base = 2, unacked = [(2, ''b'')], pending = [],
      pending_idx = 0, window = 10, timeout = 13 / 2, timer = ''rtx'', timer_active = True\<rparr>"
  by (simp add: sender_eval)

lemma sender_example_acknowledged:
  "acknowledged (AtLeastOnceSender_init ''r'')
     [Local (MESSAGE ''a''), Local (MESSAGE ''b''), Wire (ACK 1) ''r''] = {1}"
  by (simp add: sender_eval)

lemma sender_variant_example: "sender_variant (AtLeastOnceSender_init ''r'')"
  unfolding sender_variant_def by blast

theorem sender_state_invariant_witness:
  "unacked (fst (Sender_run (AtLeastOnceSender_init ''r'')
      [Local (MESSAGE ''a''), Local (MESSAGE ''b''), Wire (ACK 1) ''r''])) = [(2, ''b'')] \<and>
   keys [(2, ''b'')] = {q. 2 \<le> q \<and> q \<le> 3 - 1 \<and> q \<notin> {1}} \<and>
   2 \<in> keys [(2, ''b'')] \<and>
   armed_timers (AtLeastOnceSender_init ''r'')
      [Local (MESSAGE ''a''), Local (MESSAGE ''b''), Wire (ACK 1) ''r''] {} = {''rtx''} \<and>
   timer_active (fst (Sender_run (AtLeastOnceSender_init ''r'')
      [Local (MESSAGE ''a''), Local (MESSAGE ''b''), Wire (ACK 1) ''r'']))"
proof -
  note inv = sender_state_invariant [OF sender_variant_example,
      of "[Local (MESSAGE ''a''), Local (MESSAGE ''b''), Wire (ACK 1) ''r'']",
      unfolded sender_example_run sender_example_acknowledged]
  show ?thesis
    unfolding sender_example_run using inv by simp
qed

text \<open>
  Claim C5. Go-back-one retransmission: when the retransmission timer of a sender in a
  reachable state \<open>s\<close> fires (\<^verbatim>\<open>on_timer\<close> with the sender's own timer name),
  then, if \<^verbatim>\<open>_unacked\<close> is empty, nothing is sent and the state, with the timer
  flag unset, is as before; otherwise exactly one message is sent,
  \<^verbatim>\<open>DATA{base, unacked[base]}\<close>, followed by one \<^verbatim>\<open>set_timer_once\<close>, and
  the state is as before, with the timer flag set again. No other sequence number is
  retransmitted.
\<close>

theorem go_back_one_retransmission:
  assumes "sender_variant s0" and "s = fst (Sender_run s0 es)"
  shows
    "if unacked s = [] then Sender_on_timer s (timer s) = (s, [])
     else (\<exists>t. map_of (unacked s) (base s) = Some t \<and>
               Sender_on_timer s (timer s) =
                 (s, [Send (DATA (base s) t) (receiver s),
                      SetTimerOnce (timer s) (timeout s)]))"
proof -
  have inv: "sender_inv s (acknowledged s0 es)"
    using Sender_run_inv [OF sender_variant_inv [OF assms(1)], of es] assms(2) by simp
  show ?thesis
  proof (cases "unacked s = []")
    case True
    with inv have "\<not> timer_active s" by (simp add: sender_inv_def)
    then have "s\<lparr>timer_active := False\<rparr> = s" by simp
    with True show ?thesis by (simp add: Sender_on_timer_def)
  next
    case False
    with inv have "timer_active s" by (simp add: sender_inv_def)
    then have e: "s\<lparr>timer_active := True\<rparr> = s" by simp
    from sender_inv_base_key [OF inv False]
    have "map_of (unacked s) (base s) \<noteq> None"
      by (simp add: map_of_None_keys)
    then obtain t where t: "map_of (unacked s) (base s) = Some t"
      by blast
    show ?thesis
      using False t e by (simp add: Sender_on_timer_def Let_def arm_timer_def send_data_def)
  qed
qed

theorem go_back_one_retransmission_witness:
  "Sender_on_timer
     \<lparr>receiver = ''r'', next_seq = 3, base = 2, unacked = [(2, ''b'')], pending = [],
      pending_idx = 0, window = 10, timeout = 13 / 2, timer = ''rtx'', timer_active = True\<rparr>
     ''rtx'' =
   (\<lparr>receiver = ''r'', next_seq = 3, base = 2, unacked = [(2, ''b'')], pending = [],
      pending_idx = 0, window = 10, timeout = 13 / 2, timer = ''rtx'', timer_active = True\<rparr>,
    [Send (DATA 2 ''b'') ''r'', SetTimerOnce ''rtx'' (13 / 2)])"
  using go_back_one_retransmission [OF sender_variant_example sender_example_run [symmetric]]
  by simp

text \<open>
  Claim C6. A sender with window 10 (the at-least-once and the exactly-once class) that
  handles 15 application inputs with no other event in between transmits exactly ten
  \<^verbatim>\<open>DATA\<close> messages, with the sequence numbers 1 to 10 and the texts of the
  first ten inputs, keeps the texts of the inputs 11 to 15 in \<^verbatim>\<open>_pending\<close>, and
  arms the timer once, in the reaction to the first input.
\<close>

theorem fifteen_inputs_window_ten:
  "Sender_run (AtLeastOnceSender_init rid)
      (map (\<lambda>t. Local (MESSAGE t))
         [t1, t2, t3, t4, t5, t6, t7, t8, t9, t10, t11, t12, t13, t14, t15]) =
     (\<lparr>receiver = rid, next_seq = 11, base = 1,
       unacked = [(1, t1), (2, t2), (3, t3), (4, t4), (5, t5),
                  (6, t6), (7, t7), (8, t8), (9, t9), (10, t10)],
       pending = [t11, t12, t13, t14, t15], pending_idx = 0, window = 10,
       timeout = 13 / 2, timer = ''rtx'', timer_active = True\<rparr>,
      Send (DATA 1 t1) rid # SetTimerOnce ''rtx'' (13 / 2) #
      map (\<lambda>(q, t). Send (DATA q t) rid)
        [(2, t2), (3, t3), (4, t4), (5, t5), (6, t6), (7, t7), (8, t8), (9, t9), (10, t10)]) \<and>
   Sender_run (ExactlyOnceSender_init rid)
      (map (\<lambda>t. Local (MESSAGE t))
         [t1, t2, t3, t4, t5, t6, t7, t8, t9, t10, t11, t12, t13, t14, t15]) =
     (\<lparr>receiver = rid, next_seq = 11, base = 1,
       unacked = [(1, t1), (2, t2), (3, t3), (4, t4), (5, t5),
                  (6, t6), (7, t7), (8, t8), (9, t9), (10, t10)],
       pending = [t11, t12, t13, t14, t15], pending_idx = 0, window = 10,
       timeout = 13 / 2, timer = ''rtx'', timer_active = True\<rparr>,
      Send (DATA 1 t1) rid # SetTimerOnce ''rtx'' (13 / 2) #
      map (\<lambda>(q, t). Send (DATA q t) rid)
        [(2, t2), (3, t3), (4, t4), (5, t5), (6, t6), (7, t7), (8, t8), (9, t9), (10, t10)])"
  by (simp add: sender_eval)

section \<open>The reorder loop\<close>

lemma flush_loop_stop: "map_of buf n = None \<Longrightarrow> flush_loop n buf = ((n, buf), [])"
  by (subst flush_loop.simps) simp

lemma flush_loop_step:
  "map_of buf n = Some t \<Longrightarrow>
   flush_loop n buf =
     (fst (flush_loop (n + 1) (AList.delete n buf)),
      deliver t @ snd (flush_loop (n + 1) (AList.delete n buf)))"
  by (subst flush_loop.simps) (simp add: case_prod_beta)

lemma map_of_delete: "map_of (AList.delete k d) q = (if q = k then None else map_of d q)"
  by (simp add: AList.delete_conv)

text \<open>
  What the loop computes from \<open>n\<close> and \<open>buf\<close>: it stops at the first number
  \<open>n'\<close> from \<open>n\<close> upward that is not a key, it has removed the keys from
  \<open>n\<close> to \<open>n' - 1\<close> and has left every other entry alone, and it has delivered
  the texts of the removed keys in increasing order of the keys.
\<close>

definition flushed :: "int \<Rightarrow> seqdict \<Rightarrow> int \<Rightarrow> seqdict \<Rightarrow> action list \<Rightarrow> bool" where
  "flushed n buf n' buf' out =
     (n \<le> n' \<and>
      (\<forall>q. n \<le> q \<and> q < n' \<longrightarrow> map_of buf q \<noteq> None) \<and>
      map_of buf n' = None \<and>
      (\<forall>q. map_of buf' q = (if n \<le> q \<and> q < n' then None else map_of buf q)) \<and>
      length buf' + nat (n' - n) \<le> length buf \<and>
      out = concat (map (\<lambda>q. deliver (the (map_of buf q))) [n .. n' - 1]))"

lemma flush_loop_flushed:
  "flushed n buf (fst (fst (flush_loop n buf))) (snd (fst (flush_loop n buf)))
     (snd (flush_loop n buf))"
proof (induction n buf rule: flush_loop.induct)
  case (1 n buf)
  show ?case
  proof (cases "map_of buf n")
    case None
    then show ?thesis by (auto simp: flush_loop_stop flushed_def)
  next
    case (Some t)
    define r where "r = flush_loop (n + 1) (AList.delete n buf)"
    define n' where "n' = fst (fst r)"
    define buf' where "buf' = snd (fst r)"
    have e: "flush_loop n buf = ((n', buf'), deliver t @ snd r)"
      by (simp add: flush_loop_step [OF Some] r_def n'_def buf'_def)
    have "flushed (n + 1) (AList.delete n buf) n' buf' (snd r)"
      using 1 [OF Some] by (simp add: r_def n'_def buf'_def)
    then have ih: "n + 1 \<le> n'"
      "\<forall>q. n + 1 \<le> q \<and> q < n' \<longrightarrow> map_of (AList.delete n buf) q \<noteq> None"
      "map_of (AList.delete n buf) n' = None"
      "\<forall>q. map_of buf' q =
            (if n + 1 \<le> q \<and> q < n' then None else map_of (AList.delete n buf) q)"
      "length buf' + nat (n' - (n + 1)) \<le> length (AList.delete n buf)"
      "snd r = concat (map (\<lambda>q. deliver (the (map_of (AList.delete n buf) q))) [n + 1 .. n' - 1])"
      by (simp_all add: flushed_def)
    have a: "n \<le> n'" using ih(1) by simp
    have b: "map_of buf q \<noteq> None" if "n \<le> q \<and> q < n'" for q
    proof (cases "q = n")
      case True
      then show ?thesis using Some by simp
    next
      case False
      with that ih(2) have "map_of (AList.delete n buf) q \<noteq> None" by simp
      then show ?thesis by (simp add: map_of_delete split: if_splits)
    qed
    have c: "map_of buf n' = None"
      using ih(1,3) by (simp add: map_of_delete split: if_splits)
    have d: "map_of buf' q = (if n \<le> q \<and> q < n' then None else map_of buf q)" for q
      using ih(1,4) by (cases "q = n") (auto simp: map_of_delete)
    have l: "length buf' + nat (n' - n) \<le> length buf"
      using ih(1,5) length_delete_less [OF Some] by linarith
    have m: "map (\<lambda>q. deliver (the (map_of (AList.delete n buf) q))) [n + 1 .. n' - 1]
        = map (\<lambda>q. deliver (the (map_of buf q))) [n + 1 .. n' - 1]"
      by (rule map_cong) (auto simp: map_of_delete)
    have u: "[n .. n' - 1] = n # [n + 1 .. n' - 1]"
      using ih(1) by (simp add: upto_rec1)
    have "concat (map (\<lambda>q. deliver (the (map_of buf q))) [n .. n' - 1])
        = deliver t @ concat (map (\<lambda>q. deliver (the (map_of buf q))) [n + 1 .. n' - 1])"
      unfolding u using Some by simp
    then have o: "deliver t @ snd r =
        concat (map (\<lambda>q. deliver (the (map_of buf q))) [n .. n' - 1])"
      unfolding ih(6) m by simp
    show ?thesis
      unfolding e fst_conv snd_conv flushed_def
      using a b c d l o by blast
  qed
qed

section \<open>The exactly-once-ordered receiver delivers in order\<close>

text \<open>One reaction of the receiver to an event of the runtime, and a run of reactions.\<close>

fun ExactlyOnceOrderedReceiver_react ::
  "ExactlyOnceOrderedReceiver \<Rightarrow> event \<Rightarrow> ExactlyOnceOrderedReceiver \<times> action list" where
  "ExactlyOnceOrderedReceiver_react s (Local m) = ExactlyOnceOrderedReceiver_on_local_message s m"
| "ExactlyOnceOrderedReceiver_react s (Wire m sender) =
     ExactlyOnceOrderedReceiver_on_message s m sender"
| "ExactlyOnceOrderedReceiver_react s (Timer timer_name) =
     ExactlyOnceOrderedReceiver_on_timer s timer_name"

fun ExactlyOnceOrderedReceiver_run ::
  "ExactlyOnceOrderedReceiver \<Rightarrow> event list \<Rightarrow> ExactlyOnceOrderedReceiver \<times> action list" where
  "ExactlyOnceOrderedReceiver_run s [] = (s, [])"
| "ExactlyOnceOrderedReceiver_run s (e # es) =
     (let (s1, out1) = ExactlyOnceOrderedReceiver_react s e;
          (s2, out2) = ExactlyOnceOrderedReceiver_run s1 es
      in (s2, out1 @ out2))"

text \<open>
  The messages handed to the application in a list of calls, in the order of the calls;
  the sequence numbers of the \<^verbatim>\<open>DATA\<close> messages that arrive in a run; and
  the condition that the arrivals come from one sender, which gave the text
  \<open>txt q\<close> to the sequence number \<open>q\<close>: every copy of \<^verbatim>\<open>DATA{q}\<close>
  on the wire carries that text.
\<close>

fun local_messages :: "action list \<Rightarrow> message list" where
  "local_messages [] = []"
| "local_messages (SendLocal m # out) = m # local_messages out"
| "local_messages (Send m r # out) = local_messages out"
| "local_messages (SetTimerOnce n d # out) = local_messages out"
| "local_messages (CancelTimer n # out) = local_messages out"

fun data_seq :: "event \<Rightarrow> int set" where
  "data_seq (Wire m sender) = (if mtype m = ''DATA'' then {mseq m} else {})"
| "data_seq (Local m) = {}"
| "data_seq (Timer timer_name) = {}"

definition arrived :: "event list \<Rightarrow> int set" where
  "arrived es = (\<Union>e \<in> set es. data_seq e)"

fun carries :: "(int \<Rightarrow> string) \<Rightarrow> event \<Rightarrow> bool" where
  "carries txt (Wire m sender) = (mtype m \<noteq> ''DATA'' \<or> mtext m = txt (mseq m))"
| "carries txt (Local m) = True"
| "carries txt (Timer timer_name) = True"

lemma local_messages_append [simp]:
  "local_messages (xs @ ys) = local_messages xs @ local_messages ys"
  by (induction xs rule: local_messages.induct) simp_all

lemma local_messages_flush:
  "\<forall>q \<in> set qs. map_of buf q = Some (txt q) \<Longrightarrow>
   local_messages (concat (map (\<lambda>q. deliver (the (map_of buf q))) qs))
     = map (\<lambda>q. MESSAGE (txt q)) qs"
  by (induction qs) (simp_all add: deliver_def)

definition ord_inv ::
  "(int \<Rightarrow> string) \<Rightarrow> ExactlyOnceOrderedReceiver \<Rightarrow> int set \<Rightarrow> action list \<Rightarrow> bool" where
  "ord_inv txt s S out =
     (1 \<le> ord_next_seq s \<and>
      (\<forall>q. 1 \<le> q \<and> q < ord_next_seq s \<longrightarrow> q \<in> S) \<and>
      ord_next_seq s \<notin> S \<and>
      (\<forall>q. map_of (ord_buffer s) q \<noteq> None \<longleftrightarrow> q \<in> S \<and> ord_next_seq s < q) \<and>
      (\<forall>q t. map_of (ord_buffer s) q = Some t \<longrightarrow> t = txt q) \<and>
      local_messages out = map (\<lambda>q. MESSAGE (txt q)) [1 .. ord_next_seq s - 1])"

lemma ord_on_message_inv:
  assumes inv: "ord_inv txt s S out" and c: "carries txt (Wire m sender)"
  shows "ord_inv txt (fst (ExactlyOnceOrderedReceiver_on_message s m sender))
           (S \<union> data_seq (Wire m sender))
           (out @ snd (ExactlyOnceOrderedReceiver_on_message s m sender))"
proof (cases "mtype m = ''DATA''")
  case False
  with inv show ?thesis by (simp add: ExactlyOnceOrderedReceiver_on_message_def)
next
  case True
  define n where "n = ord_next_seq s"
  define q where "q = mseq m"
  define buf where "buf = ord_buffer s"
  from True c have t: "mtext m = txt q" by (simp add: q_def)
  from inv have i: "1 \<le> n" "\<forall>k. 1 \<le> k \<and> k < n \<longrightarrow> k \<in> S" "n \<notin> S"
    "\<forall>k. map_of buf k \<noteq> None \<longleftrightarrow> k \<in> S \<and> n < k"
    "\<forall>k t. map_of buf k = Some t \<longrightarrow> t = txt k"
    "local_messages out = map (\<lambda>k. MESSAGE (txt k)) [1 .. n - 1]"
    by (simp_all add: ord_inv_def n_def buf_def)
  have S': "S \<union> data_seq (Wire m sender) = insert q S"
    using True by (simp add: q_def)
  consider (old) "q < n" | (expected) "q = n" | (ahead) "n < q" by linarith
  then show ?thesis
  proof cases
    case old
    then have e: "ExactlyOnceOrderedReceiver_on_message s m sender = (s, [Send (ACK q) sender])"
      using True by (simp add: ExactlyOnceOrderedReceiver_on_message_def q_def n_def)
    have "\<forall>k. map_of buf k \<noteq> None \<longleftrightarrow> k \<in> insert q S \<and> n < k"
      using i(4) old by auto
    then show ?thesis
      unfolding S' e ord_inv_def fst_conv snd_conv
      using i old by (simp add: n_def [symmetric] buf_def [symmetric])
  next
    case ahead
    define buf1 where
      "buf1 = (if map_of buf q = None then AList.update q (mtext m) buf else buf)"
    have e: "ExactlyOnceOrderedReceiver_on_message s m sender =
        (s\<lparr>ord_buffer := buf1\<rparr>, [Send (ACK q) sender])"
      using True ahead
      by (simp add: ExactlyOnceOrderedReceiver_on_message_def q_def n_def buf1_def buf_def)
    have k1: "map_of buf1 k \<noteq> None \<longleftrightarrow> k = q \<or> map_of buf k \<noteq> None" for k
      by (auto simp: buf1_def AList.update_conv')
    have k2: "\<forall>k. map_of buf1 k \<noteq> None \<longleftrightarrow> k \<in> insert q S \<and> n < k"
      using i(4) ahead unfolding k1 by auto
    have k3: "\<forall>k t. map_of buf1 k = Some t \<longrightarrow> t = txt k"
      using i(5) t by (auto simp: buf1_def AList.update_conv' split: if_splits)
    have k4: "\<forall>k. 1 \<le> k \<and> k < n \<longrightarrow> k \<in> insert q S" using i(2) by simp
    have k5: "n \<notin> insert q S" using i(3) ahead by simp
    show ?thesis
      unfolding S' e ord_inv_def fst_conv snd_conv
      using i(1,6) k2 k3 k4 k5 by (simp add: n_def [symmetric])
  next
    case expected
    define r where "r = flush_loop (n + 1) buf"
    define n' where "n' = fst (fst r)"
    define buf' where "buf' = snd (fst r)"
    have e: "ExactlyOnceOrderedReceiver_on_message s m sender =
        (s\<lparr>ord_next_seq := n', ord_buffer := buf'\<rparr>,
         deliver (mtext m) @ snd r @ [Send (ACK q) sender])"
      using True expected
      by (simp add: ExactlyOnceOrderedReceiver_on_message_def ExactlyOnceOrderedReceiver_flush_def
          q_def n_def [symmetric] buf_def [symmetric] case_prod_beta r_def n'_def buf'_def Let_def)
    have "flushed (n + 1) buf n' buf' (snd r)"
      using flush_loop_flushed [of "n + 1" buf] by (simp add: r_def n'_def buf'_def)
    then have f: "n + 1 \<le> n'"
      "\<forall>k. n + 1 \<le> k \<and> k < n' \<longrightarrow> map_of buf k \<noteq> None"
      "map_of buf n' = None"
      "\<forall>k. map_of buf' k = (if n + 1 \<le> k \<and> k < n' then None else map_of buf k)"
      "snd r = concat (map (\<lambda>k. deliver (the (map_of buf k))) [n + 1 .. n' - 1])"
      by (simp_all add: flushed_def)
    have g: "\<forall>k \<in> set [n + 1 .. n' - 1]. map_of buf k = Some (txt k)"
    proof
      fix k assume "k \<in> set [n + 1 .. n' - 1]"
      then have "n + 1 \<le> k \<and> k < n'" by simp
      with f(2) obtain u where "map_of buf k = Some u" by blast
      with i(5) show "map_of buf k = Some (txt k)" by simp
    qed
    have k1: "1 \<le> n'" using i(1) f(1) by simp
    have k2: "\<forall>k. 1 \<le> k \<and> k < n' \<longrightarrow> k \<in> insert q S"
    proof (intro allI impI)
      fix k assume a: "1 \<le> k \<and> k < n'"
      show "k \<in> insert q S"
      proof (cases "k \<le> n")
        case True
        with a i(2) expected show ?thesis by (cases "k = n") auto
      next
        case False
        with a f(2) have "map_of buf k \<noteq> None" by simp
        with i(4) show ?thesis by simp
      qed
    qed
    have k3: "n' \<notin> insert q S"
    proof
      assume "n' \<in> insert q S"
      with f(1) expected have "n' \<in> S \<and> n < n'" by auto
      with i(4) have "map_of buf n' \<noteq> None" by blast
      with f(3) show False by simp
    qed
    have k4: "\<forall>k. map_of buf' k \<noteq> None \<longleftrightarrow> k \<in> insert q S \<and> n' < k"
    proof
      fix k
      show "map_of buf' k \<noteq> None \<longleftrightarrow> k \<in> insert q S \<and> n' < k"
      proof (cases "n' \<le> k")
        case True
        then show ?thesis
          using f(1,3,4) i(4) expected by (cases "k = n'") auto
      next
        case False
        then show ?thesis
          using f(1,4) i(4) by (cases "n + 1 \<le> k") auto
      qed
    qed
    have k5: "\<forall>k t. map_of buf' k = Some t \<longrightarrow> t = txt k"
      using f(4) i(5) by (auto split: if_splits)
    have "[1 .. n' - 1] = [1 .. n - 1] @ n # [n + 1 .. n' - 1]"
      using i(1) f(1) by (intro upto_split3) simp_all
    then have k6: "local_messages (out @ deliver (mtext m) @ snd r @ [Send (ACK q) sender])
        = map (\<lambda>k. MESSAGE (txt k)) [1 .. n' - 1]"
      using i(6) t expected local_messages_flush [OF g]
      by (simp add: f(5) deliver_def)
    show ?thesis
      unfolding S' e ord_inv_def fst_conv snd_conv
      using k1 k2 k3 k4 k5 k6 by simp
  qed
qed

lemma ord_react_inv:
  assumes "ord_inv txt s S out" "carries txt e"
  shows "ord_inv txt (fst (ExactlyOnceOrderedReceiver_react s e)) (S \<union> data_seq e)
           (out @ snd (ExactlyOnceOrderedReceiver_react s e))"
proof (cases e)
  case (Wire m sender)
  with assms show ?thesis
    unfolding Wire ExactlyOnceOrderedReceiver_react.simps by (intro ord_on_message_inv)
next
  case (Local m)
  with assms show ?thesis by (simp add: ExactlyOnceOrderedReceiver_on_local_message_def)
next
  case (Timer n)
  with assms show ?thesis by (simp add: ExactlyOnceOrderedReceiver_on_timer_def)
qed

lemma ord_run_inv:
  "ord_inv txt s S out \<Longrightarrow> \<forall>e \<in> set es. carries txt e \<Longrightarrow>
   ord_inv txt (fst (ExactlyOnceOrderedReceiver_run s es)) (S \<union> arrived es)
     (out @ snd (ExactlyOnceOrderedReceiver_run s es))"
proof (induction es arbitrary: s S out)
  case Nil
  then show ?case by (simp add: arrived_def)
next
  case (Cons e es)
  from Cons.prems have "ord_inv txt (fst (ExactlyOnceOrderedReceiver_react s e)) (S \<union> data_seq e)
           (out @ snd (ExactlyOnceOrderedReceiver_react s e))"
    by (intro ord_react_inv) simp_all
  from Cons.IH [OF this] Cons.prems(2) show ?case
    by (simp add: case_prod_beta Let_def arrived_def Un_assoc)
qed

lemma ord_init_inv: "ord_inv txt ExactlyOnceOrderedReceiver_init {} []"
  by (simp add: ord_inv_def ExactlyOnceOrderedReceiver_init_def)

text \<open>
  Claim C2. After any sequence of events at the exactly-once-ordered receiver, in which
  the \<^verbatim>\<open>DATA\<close> messages of one sender arrive in any order and any number of
  copies, the messages delivered to the application are, in this order, the texts of the
  sequence numbers \<open>1, 2, \<dots>, next_seq - 1\<close>: the \<open>k\<close>-th delivery is the text
  of sequence number \<open>k\<close>, with no gap and no duplicate. As this holds after every
  prefix of the events, \<open>k + 1\<close> is never delivered before \<open>k\<close>. The deliveries
  stop exactly at the first sequence number that has not arrived: every number below
  \<open>next_seq\<close> has arrived and \<open>next_seq\<close> has not.
\<close>

theorem ordered_delivery:
  assumes "\<forall>e \<in> set es. carries txt e"
  shows
    "local_messages (snd (ExactlyOnceOrderedReceiver_run ExactlyOnceOrderedReceiver_init es)) =
       map (\<lambda>q. MESSAGE (txt q))
         [1 .. ord_next_seq (fst (ExactlyOnceOrderedReceiver_run ExactlyOnceOrderedReceiver_init es))
                 - 1] \<and>
     (\<forall>q. 1 \<le> q \<and>
          q < ord_next_seq (fst (ExactlyOnceOrderedReceiver_run ExactlyOnceOrderedReceiver_init es))
        \<longrightarrow> q \<in> arrived es) \<and>
     ord_next_seq (fst (ExactlyOnceOrderedReceiver_run ExactlyOnceOrderedReceiver_init es))
       \<notin> arrived es"
  using ord_run_inv [OF ord_init_inv assms]
  by (simp add: ord_inv_def)

lemmas ord_eval =
  ExactlyOnceOrderedReceiver_on_message_def ExactlyOnceOrderedReceiver_flush_def
  ExactlyOnceOrderedReceiver_init_def flush_loop.simps deliver_def
  MESSAGE_def ACK_def DATA_def Let_def

theorem ordered_delivery_witness:
  "local_messages (snd (ExactlyOnceOrderedReceiver_run ExactlyOnceOrderedReceiver_init
      [Wire (DATA 3 ''c'') ''s'', Wire (DATA 2 ''b'') ''s'', Wire (DATA 1 ''a'') ''s'',
       Wire (DATA 2 ''b'') ''s'', Wire (DATA 5 ''e'') ''s''])) =
     [MESSAGE ''a'', MESSAGE ''b'', MESSAGE ''c''] \<and>
   ord_next_seq (fst (ExactlyOnceOrderedReceiver_run ExactlyOnceOrderedReceiver_init
      [Wire (DATA 3 ''c'') ''s'', Wire (DATA 2 ''b'') ''s'', Wire (DATA 1 ''a'') ''s'',
       Wire (DATA 2 ''b'') ''s'', Wire (DATA 5 ''e'') ''s''])) = 4"
  using ordered_delivery
    [of "[Wire (DATA 3 ''c'') ''s'', Wire (DATA 2 ''b'') ''s'', Wire (DATA 1 ''a'') ''s'',
          Wire (DATA 2 ''b'') ''s'', Wire (DATA 5 ''e'') ''s'']"
        "\<lambda>q. if q = 1 then ''a'' else if q = 2 then ''b'' else if q = 3 then ''c'' else ''e''"]
  by (simp add: ord_eval)

section \<open>The at-most-once receiver skips ahead\<close>

text \<open>One reaction of the receiver to an event of the runtime, and a run of reactions.\<close>

fun AtMostOnceReceiver_react ::
  "AtMostOnceReceiver \<Rightarrow> event \<Rightarrow> AtMostOnceReceiver \<times> action list" where
  "AtMostOnceReceiver_react s (Local m) = AtMostOnceReceiver_on_local_message s m"
| "AtMostOnceReceiver_react s (Wire m sender) = AtMostOnceReceiver_on_message s m sender"
| "AtMostOnceReceiver_react s (Timer timer_name) = AtMostOnceReceiver_on_timer s timer_name"

fun AtMostOnceReceiver_run ::
  "AtMostOnceReceiver \<Rightarrow> event list \<Rightarrow> AtMostOnceReceiver \<times> action list" where
  "AtMostOnceReceiver_run s [] = (s, [])"
| "AtMostOnceReceiver_run s (e # es) =
     (let (s1, out1) = AtMostOnceReceiver_react s e;
          (s2, out2) = AtMostOnceReceiver_run s1 es
      in (s2, out1 @ out2))"

text \<open>
  Between reactions every buffered sequence number lies ahead of \<^verbatim>\<open>_next_seq\<close>
  and the buffer holds at most \<^verbatim>\<open>_max_buffer\<close> = 12 entries.
\<close>

definition ahead_inv :: "AtMostOnceReceiver \<Rightarrow> bool" where
  "ahead_inv s = (\<forall>q. map_of (amo_buffer s) q \<noteq> None \<longrightarrow> amo_next_seq s < q)"

definition amo_inv :: "AtMostOnceReceiver \<Rightarrow> bool" where
  "amo_inv s = (ahead_inv s \<and> length (amo_buffer s) \<le> 12 \<and> amo_max_buffer s = 12)"

lemma flush_fields:
  "amo_max_buffer (fst (AtMostOnceReceiver_flush s)) = amo_max_buffer s"
  "flushed (amo_next_seq s) (amo_buffer s) (amo_next_seq (fst (AtMostOnceReceiver_flush s)))
     (amo_buffer (fst (AtMostOnceReceiver_flush s))) (snd (AtMostOnceReceiver_flush s))"
  using flush_loop_flushed [of "amo_next_seq s" "amo_buffer s"]
  by (simp_all add: AtMostOnceReceiver_flush_def case_prod_beta)

lemma flushed_ahead:
  assumes "flushed n buf n' buf' out" "\<forall>q. map_of buf q \<noteq> None \<longrightarrow> m < q" "n \<le> m + 1"
  shows "\<forall>q. map_of buf' q \<noteq> None \<longrightarrow> n' < q"
proof (intro allI impI)
  fix q assume a: "map_of buf' q \<noteq> None"
  from assms(1) have f: "n \<le> n'" "map_of buf n' = None"
    "map_of buf' q = (if n \<le> q \<and> q < n' then None else map_of buf q)"
    by (simp_all add: flushed_def)
  from a f(3) have b: "\<not> (n \<le> q \<and> q < n')" "map_of buf q \<noteq> None"
    by (auto split: if_splits)
  with assms(2) have "m < q" by simp
  moreover from b(2) f(2) have "q \<noteq> n'" by auto
  ultimately show "n' < q" using b(1) assms(3) by linarith
qed

lemma flush_ahead:
  assumes "\<forall>q. map_of (amo_buffer s) q \<noteq> None \<longrightarrow> m < q" "amo_next_seq s \<le> m + 1"
  shows "ahead_inv (fst (AtMostOnceReceiver_flush s))"
  unfolding ahead_inv_def
  using flushed_ahead [OF flush_fields(2) assms] .

lemma flush_length:
  "length (amo_buffer (fst (AtMostOnceReceiver_flush s))) \<le> length (amo_buffer s)"
  "map_of (amo_buffer s) (amo_next_seq s) \<noteq> None \<Longrightarrow>
   length (amo_buffer (fst (AtMostOnceReceiver_flush s))) < length (amo_buffer s)"
proof -
  let ?s' = "fst (AtMostOnceReceiver_flush s)"
  from flush_fields(2) [of s]
  have f: "amo_next_seq s \<le> amo_next_seq ?s'" "map_of (amo_buffer s) (amo_next_seq ?s') = None"
    "length (amo_buffer ?s') + nat (amo_next_seq ?s' - amo_next_seq s) \<le> length (amo_buffer s)"
    by (simp_all add: flushed_def)
  from f(3) show "length (amo_buffer ?s') \<le> length (amo_buffer s)" by simp
  assume "map_of (amo_buffer s) (amo_next_seq s) \<noteq> None"
  with f(2) have "amo_next_seq s \<noteq> amo_next_seq ?s'" by auto
  with f(1,3) show "length (amo_buffer ?s') < length (amo_buffer s)" by linarith
qed

lemma flush_next_seq_mono: "amo_next_seq s \<le> amo_next_seq (fst (AtMostOnceReceiver_flush s))"
  using flush_fields(2) [of s] by (simp add: flushed_def)

lemma update_absent: "map_of d k = None \<Longrightarrow> AList.update k v d = d @ [(k, v)]"
  by (induction d) (auto split: if_splits)

lemma accept_inv:
  assumes "amo_inv s" "amo_next_seq s \<le> q"
  shows "ahead_inv (fst (AtMostOnceReceiver_accept s q t))"
    and "length (amo_buffer (fst (AtMostOnceReceiver_accept s q t))) \<le> 13"
    and "amo_max_buffer (fst (AtMostOnceReceiver_accept s q t)) = 12"
    and "amo_next_seq s \<le> amo_next_seq (fst (AtMostOnceReceiver_accept s q t))"
proof -
  from assms(1) have i: "\<forall>k. map_of (amo_buffer s) k \<noteq> None \<longrightarrow> amo_next_seq s < k"
    "length (amo_buffer s) \<le> 12" "amo_max_buffer s = 12"
    by (simp_all add: amo_inv_def ahead_inv_def)
  let ?s1 = "s\<lparr>amo_next_seq := amo_next_seq s + 1\<rparr>"
  have a: "ahead_inv (fst (AtMostOnceReceiver_flush ?s1))"
    using i(1) by (intro flush_ahead [where m = "amo_next_seq s"]) simp_all
  have l: "length (amo_buffer (fst (AtMostOnceReceiver_flush ?s1))) \<le> 12"
    using flush_length(1) [of ?s1] i(2) by simp
  have n: "amo_next_seq s \<le> amo_next_seq (fst (AtMostOnceReceiver_flush ?s1))"
    using flush_next_seq_mono [of ?s1] by simp
  show "ahead_inv (fst (AtMostOnceReceiver_accept s q t))"
    using a i(1) assms(2)
    by (auto simp: AtMostOnceReceiver_accept_def case_prod_beta ahead_inv_def
        AList.update_conv')
  show "length (amo_buffer (fst (AtMostOnceReceiver_accept s q t))) \<le> 13"
    using l i(2)
    by (auto simp: AtMostOnceReceiver_accept_def case_prod_beta update_absent)
  show "amo_max_buffer (fst (AtMostOnceReceiver_accept s q t)) = 12"
    using i(3) by (simp add: AtMostOnceReceiver_accept_def case_prod_beta flush_fields(1))
  show "amo_next_seq s \<le> amo_next_seq (fst (AtMostOnceReceiver_accept s q t))"
    using n by (simp add: AtMostOnceReceiver_accept_def case_prod_beta)
qed

lemma Min_keys:
  assumes "buf \<noteq> []"
  shows "Min (keys buf) \<in> keys buf" "\<forall>q \<in> keys buf. Min (keys buf) \<le> q"
proof -
  have "finite (keys buf)" "keys buf \<noteq> {}" using assms by (simp_all add: keys_def)
  then show "Min (keys buf) \<in> keys buf" "\<forall>q \<in> keys buf. Min (keys buf) \<le> q"
    by simp_all
qed

lemma skip_ahead_fires:
  assumes "ahead_inv s" "amo_buffer s \<noteq> []"
  shows "amo_next_seq s < Min (keys (amo_buffer s))"
    and "AtMostOnceReceiver_skip_ahead s =
           AtMostOnceReceiver_flush (s\<lparr>amo_next_seq := Min (keys (amo_buffer s))\<rparr>)"
proof -
  from Min_keys(1) [OF assms(2)] have "map_of (amo_buffer s) (Min (keys (amo_buffer s))) \<noteq> None"
    by (simp add: map_of_None_keys)
  with assms(1) show lt: "amo_next_seq s < Min (keys (amo_buffer s))"
    by (simp add: ahead_inv_def)
  then show "AtMostOnceReceiver_skip_ahead s =
           AtMostOnceReceiver_flush (s\<lparr>amo_next_seq := Min (keys (amo_buffer s))\<rparr>)"
    using assms(2) by (simp add: AtMostOnceReceiver_skip_ahead_def Let_def)
qed

lemma skip_ahead_inv:
  assumes "ahead_inv s" "amo_buffer s \<noteq> []"
  shows "ahead_inv (fst (AtMostOnceReceiver_skip_ahead s))"
    and "length (amo_buffer (fst (AtMostOnceReceiver_skip_ahead s))) < length (amo_buffer s)"
    and "amo_max_buffer (fst (AtMostOnceReceiver_skip_ahead s)) = amo_max_buffer s"
    and "amo_next_seq s \<le> amo_next_seq (fst (AtMostOnceReceiver_skip_ahead s))"
proof -
  define k where "k = Min (keys (amo_buffer s))"
  define s1 where "s1 = s\<lparr>amo_next_seq := k\<rparr>"
  have e: "AtMostOnceReceiver_skip_ahead s = AtMostOnceReceiver_flush s1"
    using skip_ahead_fires(2) [OF assms] by (simp add: s1_def k_def)
  have lt: "amo_next_seq s < k"
    using skip_ahead_fires(1) [OF assms] by (simp add: k_def)
  have mem: "map_of (amo_buffer s1) (amo_next_seq s1) \<noteq> None"
    using Min_keys(1) [OF assms(2)] by (simp add: s1_def k_def map_of_None_keys)
  have "\<forall>q. map_of (amo_buffer s1) q \<noteq> None \<longrightarrow> k - 1 < q"
  proof (intro allI impI)
    fix q assume "map_of (amo_buffer s1) q \<noteq> None"
    then have "q \<in> keys (amo_buffer s)" by (simp add: s1_def map_of_None_keys)
    with Min_keys(2) [OF assms(2)] have "k \<le> q" by (simp add: k_def)
    then show "k - 1 < q" by simp
  qed
  then show "ahead_inv (fst (AtMostOnceReceiver_skip_ahead s))"
    unfolding e by (rule flush_ahead) (simp add: s1_def)
  show "length (amo_buffer (fst (AtMostOnceReceiver_skip_ahead s))) < length (amo_buffer s)"
    unfolding e using flush_length(2) [OF mem] by (simp add: s1_def)
  show "amo_max_buffer (fst (AtMostOnceReceiver_skip_ahead s)) = amo_max_buffer s"
    unfolding e by (simp add: flush_fields(1) s1_def)
  show "amo_next_seq s \<le> amo_next_seq (fst (AtMostOnceReceiver_skip_ahead s))"
    unfolding e using flush_next_seq_mono [of s1] lt by (simp add: s1_def)
qed

lemma AtMostOnceReceiver_on_message_inv:
  assumes "amo_inv s"
  shows "amo_inv (fst (AtMostOnceReceiver_on_message s m sender))"
    and "amo_next_seq s \<le> amo_next_seq (fst (AtMostOnceReceiver_on_message s m sender))"
proof -
  define s1 where "s1 = fst (AtMostOnceReceiver_accept s (mseq m) (mtext m))"
  have both: "amo_inv (fst (AtMostOnceReceiver_on_message s m sender)) \<and>
      amo_next_seq s \<le> amo_next_seq (fst (AtMostOnceReceiver_on_message s m sender))"
  proof (cases "mtype m \<noteq> ''DATA'' \<or> mseq m < amo_next_seq s")
    case True
    with assms show ?thesis by (auto simp: AtMostOnceReceiver_on_message_def)
  next
    case False
    then have le: "amo_next_seq s \<le> mseq m" by simp
    note a = accept_inv [OF assms le, of "mtext m", folded s1_def]
    show ?thesis
    proof (cases "12 < length (amo_buffer s1)")
      case False
      then have "fst (AtMostOnceReceiver_on_message s m sender) = s1"
        using \<open>\<not> (mtype m \<noteq> ''DATA'' \<or> mseq m < amo_next_seq s)\<close> a(3)
        by (simp add: AtMostOnceReceiver_on_message_def case_prod_beta s1_def)
      with a False show ?thesis by (simp add: amo_inv_def)
    next
      case True
      then have ne: "amo_buffer s1 \<noteq> []" by auto
      have e: "fst (AtMostOnceReceiver_on_message s m sender)
          = fst (AtMostOnceReceiver_skip_ahead s1)"
        using \<open>\<not> (mtype m \<noteq> ''DATA'' \<or> mseq m < amo_next_seq s)\<close> a(3) True
        by (simp add: AtMostOnceReceiver_on_message_def case_prod_beta s1_def)
      note k = skip_ahead_inv [OF a(1) ne]
      show ?thesis
        unfolding e amo_inv_def using k a(2,3,4) by simp
    qed
  qed
  then show "amo_inv (fst (AtMostOnceReceiver_on_message s m sender))"
    and "amo_next_seq s \<le> amo_next_seq (fst (AtMostOnceReceiver_on_message s m sender))"
    by simp_all
qed

lemma AtMostOnceReceiver_react_inv:
  assumes "amo_inv s"
  shows "amo_inv (fst (AtMostOnceReceiver_react s e))"
    and "amo_next_seq s \<le> amo_next_seq (fst (AtMostOnceReceiver_react s e))"
  using assms AtMostOnceReceiver_on_message_inv [OF assms]
  by (cases e; simp add: AtMostOnceReceiver_on_local_message_def AtMostOnceReceiver_on_timer_def)+

lemma AtMostOnceReceiver_run_inv:
  "amo_inv s \<Longrightarrow>
   amo_inv (fst (AtMostOnceReceiver_run s es)) \<and>
   amo_next_seq s \<le> amo_next_seq (fst (AtMostOnceReceiver_run s es))"
proof (induction es arbitrary: s)
  case Nil
  then show ?case by simp
next
  case (Cons e es)
  note r = AtMostOnceReceiver_react_inv [OF Cons.prems, of e]
  from Cons.IH [OF r(1)] r(2) show ?case
    by (simp add: case_prod_beta Let_def)
qed

lemma AtMostOnceReceiver_init_inv: "amo_inv AtMostOnceReceiver_init"
  by (simp add: amo_inv_def ahead_inv_def AtMostOnceReceiver_init_def)

lemma AtMostOnceReceiver_run_append:
  "AtMostOnceReceiver_run s (xs @ ys) =
     (fst (AtMostOnceReceiver_run (fst (AtMostOnceReceiver_run s xs)) ys),
      snd (AtMostOnceReceiver_run s xs)
        @ snd (AtMostOnceReceiver_run (fst (AtMostOnceReceiver_run s xs)) ys))"
  by (induction xs arbitrary: s) (simp_all add: case_prod_beta Let_def)

lemma buffer_one:
  assumes "amo_max_buffer s = 12" "amo_next_seq s < q" "map_of (amo_buffer s) q = None"
    "length (amo_buffer s) < 12"
  shows "AtMostOnceReceiver_on_message s (DATA q t) sender =
           (s\<lparr>amo_buffer := amo_buffer s @ [(q, t)]\<rparr>, [])"
  using assms
  by (simp add: AtMostOnceReceiver_on_message_def AtMostOnceReceiver_accept_def DATA_def
      update_absent)

lemma buffer_many:
  assumes "amo_max_buffer s = 12" "distinct qs"
    "\<forall>q \<in> set qs. amo_next_seq s < q \<and> map_of (amo_buffer s) q = None"
    "length (amo_buffer s) + length qs \<le> 12"
  shows "AtMostOnceReceiver_run s (map (\<lambda>q. Wire (DATA q (txt q)) sender) qs) =
           (s\<lparr>amo_buffer := amo_buffer s @ map (\<lambda>q. (q, txt q)) qs\<rparr>, [])"
  using assms
proof (induction qs arbitrary: s)
  case Nil
  then show ?case by simp
next
  case (Cons q qs)
  define s1 where "s1 = s\<lparr>amo_buffer := amo_buffer s @ [(q, txt q)]\<rparr>"
  have one: "AtMostOnceReceiver_on_message s (DATA q (txt q)) sender = (s1, [])"
    unfolding s1_def using Cons.prems by (intro buffer_one) simp_all
  have "AtMostOnceReceiver_run s1 (map (\<lambda>q. Wire (DATA q (txt q)) sender) qs) =
      (s1\<lparr>amo_buffer := amo_buffer s1 @ map (\<lambda>q. (q, txt q)) qs\<rparr>, [])"
    using Cons.prems by (intro Cons.IH) (auto simp: s1_def)
  then show ?case by (simp add: one s1_def)
qed

lemma map_of_graph:
  "map_of (map (\<lambda>q. (q, f q)) qs) q = (if q \<in> set qs then Some (f q) else None)"
  by (induction qs) auto

lemma keys_graph [simp]: "keys (map (\<lambda>q. (q, f q)) qs) = set qs"
  by (simp add: keys_def image_image)

lemma flushed_interval:
  assumes f: "flushed a buf n' buf' out"
    and k: "\<forall>q. map_of buf q \<noteq> None \<longleftrightarrow> a \<le> q \<and> q \<le> b"
  shows "n' = (if a \<le> b then b + 1 else a)" and "buf' = []"
proof -
  from f have g: "a \<le> n'" "\<forall>q. a \<le> q \<and> q < n' \<longrightarrow> map_of buf q \<noteq> None"
    "map_of buf n' = None"
    "\<forall>q. map_of buf' q = (if a \<le> q \<and> q < n' then None else map_of buf q)"
    by (simp_all add: flushed_def)
  from g(1,3) k have lo: "b < n'" by force
  have hi: "n' \<le> b + 1" if "a \<le> b"
  proof (rule ccontr)
    assume "\<not> n' \<le> b + 1"
    with that have "a \<le> b + 1 \<and> b + 1 < n'" by simp
    with g(2) have "map_of buf (b + 1) \<noteq> None" by blast
    with k show False by simp
  qed
  have lo': "n' \<le> a" if "\<not> a \<le> b"
  proof (rule ccontr)
    assume "\<not> n' \<le> a"
    then have "a \<le> a \<and> a < n'" by simp
    with g(2) have "map_of buf a \<noteq> None" by blast
    with k that show False by simp
  qed
  show "n' = (if a \<le> b then b + 1 else a)"
    using lo hi lo' g(1) by (cases "a \<le> b") simp_all
  have "map_of buf' q = None" for q
  proof (cases "a \<le> q \<and> q < n'")
    case True
    with g(4) show ?thesis by simp
  next
    case False
    with lo have "\<not> (a \<le> q \<and> q \<le> b)" by linarith
    with k have "map_of buf q = None" by blast
    with g(4) False show ?thesis by simp
  qed
  then have "map_of buf' = Map.empty" by (intro ext)
  then show "buf' = []" by simp
qed

lemma skip_ahead_general:
  assumes inv: "amo_inv s" and d: "mtype m = ''DATA''" and le: "amo_next_seq s \<le> mseq m"
    and s1: "s1 = fst (AtMostOnceReceiver_accept s (mseq m) (mtext m))"
    and out1: "out1 = snd (AtMostOnceReceiver_accept s (mseq m) (mtext m))"
    and k: "k = Min (keys (amo_buffer s1))"
    and s2: "s2 = fst (AtMostOnceReceiver_flush (s1\<lparr>amo_next_seq := k\<rparr>))"
    and out2: "out2 = snd (AtMostOnceReceiver_flush (s1\<lparr>amo_next_seq := k\<rparr>))"
  shows "length (amo_buffer s1) \<le> 12 \<Longrightarrow> AtMostOnceReceiver_on_message s m sender = (s1, out1)"
    and "12 < length (amo_buffer s1) \<Longrightarrow>
           amo_next_seq s1 < k \<and> k \<in> keys (amo_buffer s1) \<and>
           (\<forall>q \<in> keys (amo_buffer s1). k \<le> q) \<and>
           AtMostOnceReceiver_on_message s m sender = (s2, out1 @ out2) \<and>
           flushed k (amo_buffer s1) (amo_next_seq s2) (amo_buffer s2) out2"
proof -
  note a = accept_inv [OF inv le, of "mtext m", folded s1]
  show "AtMostOnceReceiver_on_message s m sender = (s1, out1)"
    if "length (amo_buffer s1) \<le> 12"
    using that d le a(3)
    by (simp add: AtMostOnceReceiver_on_message_def case_prod_beta s1 out1)
  show "amo_next_seq s1 < k \<and> k \<in> keys (amo_buffer s1) \<and>
           (\<forall>q \<in> keys (amo_buffer s1). k \<le> q) \<and>
           AtMostOnceReceiver_on_message s m sender = (s2, out1 @ out2) \<and>
           flushed k (amo_buffer s1) (amo_next_seq s2) (amo_buffer s2) out2"
    if big: "12 < length (amo_buffer s1)"
  proof -
    from big have ne: "amo_buffer s1 \<noteq> []" by auto
    note f = skip_ahead_fires [OF a(1) ne, folded k]
    have "AtMostOnceReceiver_on_message s m sender =
        (fst (AtMostOnceReceiver_skip_ahead s1), out1 @ snd (AtMostOnceReceiver_skip_ahead s1))"
      using big d le a(3)
      by (simp add: AtMostOnceReceiver_on_message_def case_prod_beta s1 [symmetric]
          out1 [symmetric])
    then have e: "AtMostOnceReceiver_on_message s m sender = (s2, out1 @ out2)"
      by (simp add: f(2) s2 out2)
    have "flushed k (amo_buffer s1) (amo_next_seq s2) (amo_buffer s2) out2"
      using flush_fields(2) [of "s1\<lparr>amo_next_seq := k\<rparr>"] by (simp add: s2 out2)
    with f(1) e Min_keys [OF ne, folded k] show ?thesis by simp
  qed
qed

lemma flush_state:
  "fst (AtMostOnceReceiver_flush s) =
     s\<lparr>amo_next_seq := amo_next_seq (fst (AtMostOnceReceiver_flush s)),
       amo_buffer := amo_buffer (fst (AtMostOnceReceiver_flush s))\<rparr>"
  by (simp add: AtMostOnceReceiver_flush_def case_prod_beta)

lemma flush_interval:
  assumes "amo_buffer s = map (\<lambda>q. (q, txt q)) qs" "set qs = {a .. b}" "a \<le> b"
    "amo_next_seq s = a"
  shows "AtMostOnceReceiver_flush s =
           (s\<lparr>amo_next_seq := b + 1, amo_buffer := []\<rparr>,
            map (\<lambda>q. SendLocal (MESSAGE (txt q))) [a .. b])"
proof -
  let ?buf = "map (\<lambda>q. (q, txt q)) qs"
  let ?s' = "fst (AtMostOnceReceiver_flush s)"
  have k: "\<forall>q. map_of ?buf q \<noteq> None \<longleftrightarrow> a \<le> q \<and> q \<le> b"
    using assms(2) by (simp add: map_of_graph)
  from flush_fields(2) [of s]
  have f: "flushed a ?buf (amo_next_seq ?s') (amo_buffer ?s') (snd (AtMostOnceReceiver_flush s))"
    by (simp add: assms)
  note r = flushed_interval [OF f k]
  from r assms(3) have n: "amo_next_seq ?s' = b + 1" "amo_buffer ?s' = []" by simp_all
  have st: "?s' = s\<lparr>amo_next_seq := b + 1, amo_buffer := []\<rparr>"
    using flush_state [of s] by (simp add: n)
  from f have "snd (AtMostOnceReceiver_flush s) =
      concat (map (\<lambda>q. deliver (the (map_of ?buf q))) [a .. b])"
    by (simp add: flushed_def n)
  also have "\<dots> = concat (map (\<lambda>q. deliver (txt q)) [a .. b])"
    using assms(2) by (intro arg_cong [where f = concat] map_cong) (simp_all add: map_of_graph)
  also have "\<dots> = map (\<lambda>q. SendLocal (MESSAGE (txt q))) [a .. b]"
    by (induction "[a .. b]" arbitrary: a) (simp_all add: deliver_def)
  finally show ?thesis using st by (simp add: prod_eq_iff)
qed

lemma DATA_sel [simp]:
  "mtype (DATA q t) = ''DATA''" "mseq (DATA q t) = q" "mtext (DATA q t) = t"
  by (simp_all add: DATA_def)

lemma AtMostOnceReceiver_init_sel [simp]:
  "amo_next_seq AtMostOnceReceiver_init = 1" "amo_buffer AtMostOnceReceiver_init = []"
  "amo_max_buffer AtMostOnceReceiver_init = 12"
  by (simp_all add: AtMostOnceReceiver_init_def)

lemma last_notin_butlast: "distinct xs \<Longrightarrow> xs \<noteq> [] \<Longrightarrow> last xs \<notin> set (butlast xs)"
  by (induction xs) auto

lemma thirteen_arrivals:
  assumes dist: "distinct qs" and qs: "set qs = {2 .. 14}"
    and evs: "evs = map (\<lambda>q. Wire (DATA q (txt q)) sender) qs"
  shows "AtMostOnceReceiver_run AtMostOnceReceiver_init (butlast evs) =
           (AtMostOnceReceiver_init\<lparr>amo_buffer := map (\<lambda>q. (q, txt q)) (butlast qs)\<rparr>, [])"
    and "AtMostOnceReceiver_skip_ahead
           (AtMostOnceReceiver_init\<lparr>amo_buffer := map (\<lambda>q. (q, txt q)) qs\<rparr>) =
         AtMostOnceReceiver_flush
           (AtMostOnceReceiver_init\<lparr>amo_next_seq := 2, amo_buffer := map (\<lambda>q. (q, txt q)) qs\<rparr>)"
    and "AtMostOnceReceiver_run AtMostOnceReceiver_init evs =
           (\<lparr>amo_next_seq = 15, amo_buffer = [], amo_max_buffer = 12\<rparr>,
            map (\<lambda>q. SendLocal (MESSAGE (txt q))) [2 .. 14])"
proof -
  let ?B = "\<lambda>xs. map (\<lambda>q. (q, txt q)) xs"
  let ?s12 = "AtMostOnceReceiver_init\<lparr>amo_buffer := ?B (butlast qs)\<rparr>"
  let ?s13 = "AtMostOnceReceiver_init\<lparr>amo_buffer := ?B qs\<rparr>"
  have len: "length qs = 13"
    using distinct_card [OF dist] qs by simp
  then have ne: "qs \<noteq> []" by auto
  then have split: "qs = butlast qs @ [last qs]" by simp
  have d12: "distinct (butlast qs)" using dist by (rule distinct_butlast)
  have in12: "\<forall>q \<in> set (butlast qs). 1 < q"
  proof
    fix q assume "q \<in> set (butlast qs)"
    then have "q \<in> set qs" by (rule in_set_butlastD)
    with qs show "1 < q" by simp
  qed
  have "AtMostOnceReceiver_run AtMostOnceReceiver_init
          (map (\<lambda>q. Wire (DATA q (txt q)) sender) (butlast qs)) =
        (AtMostOnceReceiver_init\<lparr>amo_buffer :=
           amo_buffer AtMostOnceReceiver_init @ ?B (butlast qs)\<rparr>, [])"
    using d12 in12 len by (intro buffer_many) (simp_all add: AtMostOnceReceiver_init_def)
  then show first: "AtMostOnceReceiver_run AtMostOnceReceiver_init (butlast evs) = (?s12, [])"
    by (simp add: evs map_butlast AtMostOnceReceiver_init_def)
  have lastq: "1 < last qs" "last qs \<notin> set (butlast qs)"
    using last_in_set [OF ne] qs last_notin_butlast [OF dist ne] by simp_all
  have m: "Min (set qs) = 2"
    unfolding qs by (rule Min_eqI) simp_all
  have ah: "ahead_inv ?s13"
    using qs by (auto simp: ahead_inv_def map_of_graph AtMostOnceReceiver_init_def
        split: if_splits)
  have "amo_buffer ?s13 \<noteq> []" using ne by simp
  from skip_ahead_fires(2) [OF ah this]
  show skip: "AtMostOnceReceiver_skip_ahead ?s13 =
      AtMostOnceReceiver_flush (AtMostOnceReceiver_init\<lparr>amo_next_seq := 2, amo_buffer := ?B qs\<rparr>)"
    by (simp add: m AtMostOnceReceiver_init_def)
  have fl: "AtMostOnceReceiver_flush
        (AtMostOnceReceiver_init\<lparr>amo_next_seq := 2, amo_buffer := ?B qs\<rparr>) =
      (\<lparr>amo_next_seq = 15, amo_buffer = [], amo_max_buffer = 12\<rparr>,
       map (\<lambda>q. SendLocal (MESSAGE (txt q))) [2 .. 14])"
    by (subst flush_interval [of _ "txt" qs 2 14])
      (simp_all add: qs AtMostOnceReceiver_init_def)
  have "?B qs = ?B (butlast qs) @ [(last qs, txt (last qs))]"
    using ne by (subst (1) split) (simp del: append_butlast_last_id)
  then have acc: "AtMostOnceReceiver_accept ?s12 (last qs) (txt (last qs)) = (?s13, [])"
    using lastq
    by (simp add: AtMostOnceReceiver_accept_def map_of_graph update_absent)
  have last13: "AtMostOnceReceiver_on_message ?s12 (DATA (last qs) (txt (last qs))) sender =
      (\<lparr>amo_next_seq = 15, amo_buffer = [], amo_max_buffer = 12\<rparr>,
       map (\<lambda>q. SendLocal (MESSAGE (txt q))) [2 .. 14])"
    using lastq(1) len
    by (simp add: AtMostOnceReceiver_on_message_def acc skip fl)
  have "evs \<noteq> []" using ne by (simp add: evs)
  then have "evs = butlast evs @ [last evs]" by simp
  moreover have "last evs = Wire (DATA (last qs) (txt (last qs))) sender"
    using ne by (simp add: evs last_map)
  ultimately have "evs = butlast evs @ [Wire (DATA (last qs) (txt (last qs))) sender]"
    by simp
  then have "AtMostOnceReceiver_run AtMostOnceReceiver_init evs =
      AtMostOnceReceiver_run AtMostOnceReceiver_init
        (butlast evs @ [Wire (DATA (last qs) (txt (last qs))) sender])"
    by simp
  also have "\<dots> = (\<lparr>amo_next_seq = 15, amo_buffer = [], amo_max_buffer = 12\<rparr>,
            map (\<lambda>q. SendLocal (MESSAGE (txt q))) [2 .. 14])"
    unfolding AtMostOnceReceiver_run_append first
    by (simp add: last13)
  finally show "AtMostOnceReceiver_run AtMostOnceReceiver_init evs =
           (\<lparr>amo_next_seq = 15, amo_buffer = [], amo_max_buffer = 12\<rparr>,
            map (\<lambda>q. SendLocal (MESSAGE (txt q))) [2 .. 14])" .
qed

text \<open>
  Claim C7. Skip-ahead of the at-most-once receiver. Let \<open>s\<close> be a state the receiver
  reaches from its initial state, and let a \<^verbatim>\<open>DATA\<close> message with
  \<open>seq \<ge> next_seq\<close> arrive (an older one returns at once); \<open>s1\<close> is the state after
  lines 62 to 68 have handled it. If the buffer of \<open>s1\<close> holds at most 12 entries the
  reaction ends there. If it holds more, its smallest key \<open>k\<close> is greater than
  \<^verbatim>\<open>_next_seq\<close>, \<^verbatim>\<open>_next_seq\<close> jumps to \<open>k\<close> and the loop flushes
  from there: it delivers the texts of \<open>k, k + 1, \<dots>\<close> in this order up to the first
  number that is not buffered, and removes them (\<open>flushed\<close>).

  The scenario: the sequence numbers 2 to 14 arrive at a new receiver in any order
  \<open>qs\<close>, each once. The first twelve are buffered with no delivery and
  \<^verbatim>\<open>_next_seq\<close> still 1; with the thirteenth in the buffer the skip-ahead is a
  flush from \<^verbatim>\<open>_next_seq\<close> = 2; the run ends with \<^verbatim>\<open>_next_seq\<close> = 15, an
  empty buffer and the texts of 2 to 14 delivered in increasing order. Whatever events
  \<open>es'\<close> follow, a \<^verbatim>\<open>DATA\<close> message with sequence number 1 that arrives
  afterwards is dropped: nothing is delivered and the state stays as it is.
\<close>

theorem at_most_once_skip_ahead:
  assumes "s = fst (AtMostOnceReceiver_run AtMostOnceReceiver_init es)"
    and "mtype m = ''DATA''" and "amo_next_seq s \<le> mseq m"
    and "s1 = fst (AtMostOnceReceiver_accept s (mseq m) (mtext m))"
    and "out1 = snd (AtMostOnceReceiver_accept s (mseq m) (mtext m))"
    and "k = Min (keys (amo_buffer s1))"
    and "s2 = fst (AtMostOnceReceiver_flush (s1\<lparr>amo_next_seq := k\<rparr>))"
    and "out2 = snd (AtMostOnceReceiver_flush (s1\<lparr>amo_next_seq := k\<rparr>))"
    and "distinct qs" and "set qs = {2 .. 14}"
    and "evs = map (\<lambda>q. Wire (DATA q (txt q)) sender) qs"
    and "s15 = \<lparr>amo_next_seq = 15, amo_buffer = [], amo_max_buffer = 12\<rparr>"
  shows
    "(if length (amo_buffer s1) \<le> 12
      then AtMostOnceReceiver_on_message s m sender = (s1, out1)
      else amo_next_seq s1 < k \<and> k \<in> keys (amo_buffer s1) \<and>
           (\<forall>q \<in> keys (amo_buffer s1). k \<le> q) \<and>
           AtMostOnceReceiver_on_message s m sender = (s2, out1 @ out2) \<and>
           flushed k (amo_buffer s1) (amo_next_seq s2) (amo_buffer s2) out2) \<and>
     AtMostOnceReceiver_run AtMostOnceReceiver_init (butlast evs) =
       (AtMostOnceReceiver_init\<lparr>amo_buffer := map (\<lambda>q. (q, txt q)) (butlast qs)\<rparr>, []) \<and>
     AtMostOnceReceiver_skip_ahead
         (AtMostOnceReceiver_init\<lparr>amo_buffer := map (\<lambda>q. (q, txt q)) qs\<rparr>) =
       AtMostOnceReceiver_flush
         (AtMostOnceReceiver_init\<lparr>amo_next_seq := 2, amo_buffer := map (\<lambda>q. (q, txt q)) qs\<rparr>) \<and>
     AtMostOnceReceiver_run AtMostOnceReceiver_init evs =
       (s15, map (\<lambda>q. SendLocal (MESSAGE (txt q))) [2 .. 14]) \<and>
     AtMostOnceReceiver_on_message (fst (AtMostOnceReceiver_run s15 es')) (DATA 1 t) sender'
       = (fst (AtMostOnceReceiver_run s15 es'), [])"
proof -
  have inv: "amo_inv s"
    using AtMostOnceReceiver_run_inv [OF AtMostOnceReceiver_init_inv, of es] assms(1) by simp
  note g = skip_ahead_general [OF inv assms(2-8), of sender]
  have general: "if length (amo_buffer s1) \<le> 12
      then AtMostOnceReceiver_on_message s m sender = (s1, out1)
      else amo_next_seq s1 < k \<and> k \<in> keys (amo_buffer s1) \<and>
           (\<forall>q \<in> keys (amo_buffer s1). k \<le> q) \<and>
           AtMostOnceReceiver_on_message s m sender = (s2, out1 @ out2) \<and>
           flushed k (amo_buffer s1) (amo_next_seq s2) (amo_buffer s2) out2"
  proof (cases "length (amo_buffer s1) \<le> 12")
    case True
    with g(1) show ?thesis by simp
  next
    case False
    then have "12 < length (amo_buffer s1)" by simp
    from g(2) [OF this] False show ?thesis by simp
  qed
  note sc = thirteen_arrivals [OF assms(9,10,11)]
  have "amo_inv s15" by (simp add: amo_inv_def ahead_inv_def assms(12))
  from AtMostOnceReceiver_run_inv [OF this, of es']
  have "1 < amo_next_seq (fst (AtMostOnceReceiver_run s15 es'))"
    by (simp add: assms(12))
  then have lost: "AtMostOnceReceiver_on_message (fst (AtMostOnceReceiver_run s15 es'))
      (DATA 1 t) sender' = (fst (AtMostOnceReceiver_run s15 es'), [])"
    by (simp add: AtMostOnceReceiver_on_message_def)
  show ?thesis
    using general sc lost unfolding assms(12) by blast
qed

lemmas amo_eval =
  AtMostOnceReceiver_on_message_def AtMostOnceReceiver_accept_def
  AtMostOnceReceiver_skip_ahead_def AtMostOnceReceiver_flush_def AtMostOnceReceiver_init_def
  flush_loop.simps deliver_def keys_def DATA_def MESSAGE_def Let_def

lemma amo_example_prefix:
  "fst (AtMostOnceReceiver_run AtMostOnceReceiver_init
         (map (\<lambda>q. Wire (DATA q (replicate (nat q) CHR ''x'')) ''s'')
            [3, 14, 5, 2, 7, 9, 11, 13, 4, 6, 8, 10])) =
   \<lparr>amo_next_seq = 1,
     amo_buffer = map (\<lambda>q. (q, replicate (nat q) CHR ''x''))
                    [3, 14, 5, 2, 7, 9, 11, 13, 4, 6, 8, 10],
     amo_max_buffer = 12\<rparr>"
  by (simp add: amo_eval)

lemma amo_example_distinct:
  "distinct [3, 14, 5, 2, 7, 9, 11, 13, 4, 6, 8, 10, 12 :: int]"
  "set [3, 14, 5, 2, 7, 9, 11, 13, 4, 6, 8, 10, 12 :: int] = {2 .. 14}"
proof -
  show "distinct [3, 14, 5, 2, 7, 9, 11, 13, 4, 6, 8, 10, 12 :: int]" by simp
  have "x \<in> set [3, 14, 5, 2, 7, 9, 11, 13, 4, 6, 8, 10, 12 :: int] \<longleftrightarrow> x \<in> {2 .. 14}" for x
    by simp presburger
  then show "set [3, 14, 5, 2, 7, 9, 11, 13, 4, 6, 8, 10, 12 :: int] = {2 .. 14}"
    by (rule set_eqI)
qed

theorem at_most_once_skip_ahead_witness:
  "AtMostOnceReceiver_on_message
     \<lparr>amo_next_seq = 1,
       amo_buffer = map (\<lambda>q. (q, replicate (nat q) CHR ''x''))
                      [3, 14, 5, 2, 7, 9, 11, 13, 4, 6, 8, 10],
       amo_max_buffer = 12\<rparr>
     (DATA 12 (replicate 12 CHR ''x'')) ''s'' =
     (\<lparr>amo_next_seq = 15, amo_buffer = [], amo_max_buffer = 12\<rparr>,
      map (\<lambda>q. SendLocal (MESSAGE (replicate (nat q) CHR ''x''))) [2 .. 14]) \<and>
   AtMostOnceReceiver_run AtMostOnceReceiver_init
     (map (\<lambda>q. Wire (DATA q (replicate (nat q) CHR ''x'')) ''s'')
        [3, 14, 5, 2, 7, 9, 11, 13, 4, 6, 8, 10, 12]) =
     (\<lparr>amo_next_seq = 15, amo_buffer = [], amo_max_buffer = 12\<rparr>,
      map (\<lambda>q. SendLocal (MESSAGE (replicate (nat q) CHR ''x''))) [2 .. 14]) \<and>
   AtMostOnceReceiver_on_message \<lparr>amo_next_seq = 15, amo_buffer = [], amo_max_buffer = 12\<rparr>
     (DATA 1 ''late'') ''s'' =
     (\<lparr>amo_next_seq = 15, amo_buffer = [], amo_max_buffer = 12\<rparr>, [])"
proof -
  have h2: "mtype (DATA 12 (replicate 12 CHR ''x'')) = ''DATA''" by simp
  have h3: "amo_next_seq (fst (AtMostOnceReceiver_run AtMostOnceReceiver_init
         (map (\<lambda>q. Wire (DATA q (replicate (nat q) CHR ''x'')) ''s'')
            [3, 14, 5, 2, 7, 9, 11, 13, 4, 6, 8, 10])))
       \<le> mseq (DATA 12 (replicate 12 CHR ''x''))"
    unfolding amo_example_prefix by simp
  note w = at_most_once_skip_ahead
    [OF refl h2 h3 refl refl refl refl refl amo_example_distinct refl refl,
     where ?sender = "''s''" and ?es' = "[]" and ?t = "''late''" and ?sender' = "''s''"
       and ?txt = "\<lambda>q. replicate (nat q) CHR ''x''",
     unfolded amo_example_prefix]
  show ?thesis
    using w by (simp add: amo_eval)
qed

section \<open>Unrecognised message types\<close>

text \<open>
  Claim C9. Every component ignores an event whose message type is not the one the
  handler is written for: a receiver's \<^verbatim>\<open>on_message\<close> given anything but
  \<^verbatim>\<open>DATA\<close>, a windowed sender's \<^verbatim>\<open>on_message\<close> given anything but
  \<^verbatim>\<open>ACK\<close>, and a sender's \<^verbatim>\<open>on_local_message\<close> given anything but
  \<^verbatim>\<open>MESSAGE\<close> return the state they were given, make no call on the context
  and raise nothing. The statement holds in every state, reachable or not, for every
  payload and, at the dedup receiver, whatever the allocator would grant.
\<close>

theorem unrecognized_type_is_noop:
  "(mtype m \<noteq> ''DATA'' \<longrightarrow>
      AtMostOnceReceiver_on_message amo m sender = (amo, []) \<and>
      AtLeastOnceReceiver_on_message alo m sender = (alo, []) \<and>
      ExactlyOnceReceiver_on_message heap eo m sender = Some (Inr (eo, [])) \<and>
      ExactlyOnceOrderedReceiver_on_message ord m sender = (ord, [])) \<and>
   (mtype m \<noteq> ''ACK'' \<longrightarrow> Sender_on_message sd m sender = (sd, [])) \<and>
   (mtype m \<noteq> ''MESSAGE'' \<longrightarrow>
      Sender_on_local_message sd m = (sd, []) \<and>
      AtMostOnceSender_on_local_message amos m = (amos, []))"
  by (simp add: AtMostOnceReceiver_on_message_def AtLeastOnceReceiver_on_message_def
      ExactlyOnceReceiver_on_message_def ExactlyOnceOrderedReceiver_on_message_def
      Sender_on_message_def Sender_on_local_message_def AtMostOnceSender_on_local_message_def)

theorem unrecognized_type_is_noop_witness:
  "AtMostOnceReceiver_on_message AtMostOnceReceiver_init
      \<lparr>mtype = ''PING'', mseq = 1, mtext = ''x''\<rparr> ''peer'' = (AtMostOnceReceiver_init, []) \<and>
   AtLeastOnceReceiver_on_message ()
      \<lparr>mtype = ''PING'', mseq = 1, mtext = ''x''\<rparr> ''peer'' = ((), []) \<and>
   ExactlyOnceReceiver_on_message 4096 ExactlyOnceReceiver_init
      \<lparr>mtype = ''PING'', mseq = 1, mtext = ''x''\<rparr> ''peer''
        = Some (Inr (ExactlyOnceReceiver_init, [])) \<and>
   ExactlyOnceOrderedReceiver_on_message ExactlyOnceOrderedReceiver_init
      \<lparr>mtype = ''PING'', mseq = 1, mtext = ''x''\<rparr> ''peer''
        = (ExactlyOnceOrderedReceiver_init, []) \<and>
   Sender_on_message (AtLeastOnceSender_init ''peer'')
      \<lparr>mtype = ''PING'', mseq = 1, mtext = ''x''\<rparr> ''peer''
        = (AtLeastOnceSender_init ''peer'', []) \<and>
   Sender_on_local_message (AtLeastOnceSender_init ''peer'')
      \<lparr>mtype = ''PING'', mseq = 1, mtext = ''x''\<rparr> = (AtLeastOnceSender_init ''peer'', []) \<and>
   AtMostOnceSender_on_local_message (AtMostOnceSender_init ''peer'')
      \<lparr>mtype = ''PING'', mseq = 1, mtext = ''x''\<rparr> = (AtMostOnceSender_init ''peer'', [])"
  using unrecognized_type_is_noop
    [of "\<lparr>mtype = ''PING'', mseq = 1, mtext = ''x''\<rparr>" AtMostOnceReceiver_init "''peer''"
        "()" 4096 ExactlyOnceReceiver_init ExactlyOnceOrderedReceiver_init
        "AtLeastOnceSender_init ''peer''" "AtMostOnceSender_init ''peer''"]
  by simp

end
